theory Spec2Isabelle
  imports Main "HOL-Library.Sublist" "HOL-Library.AList"
begin

section \<open>Text\<close>

text \<open>
  Python \<open>str\<close> values are modelled as \<^typ>\<open>string\<close>. A \<^typ>\<open>char\<close> stands for the code
  point of the same number, so the model covers the texts whose code points are below 256.
  On these the character classes below are the ones of Python 3: \<open>is_space\<close> is the class
  of \<open>\\s\<close> in a \<open>str\<close> pattern and of \<open>str.strip()\<close>, \<open>is_word\<close> is the class of \<open>\\w\<close>, and
  \<open>lower\<close> is \<open>str.lower()\<close>.
\<close>

definition code :: "char \<Rightarrow> nat" where
  "code c = of_char c"

definition is_space :: "char \<Rightarrow> bool" where
  "is_space c = (let n = code c in (9 \<le> n \<and> n \<le> 13) \<or> (28 \<le> n \<and> n \<le> 32) \<or> n = 133 \<or> n = 160)"

definition is_ascii_alnum :: "char \<Rightarrow> bool" where
  "is_ascii_alnum c = (let n = code c in (48 \<le> n \<and> n \<le> 57) \<or> (65 \<le> n \<and> n \<le> 90) \<or> (97 \<le> n \<and> n \<le> 122))"

definition is_word :: "char \<Rightarrow> bool" where
  "is_word c = (let n = code c in is_ascii_alnum c \<or> n = 95 \<or> n = 170 \<or> n = 178 \<or> n = 179 \<or> n = 181
     \<or> n = 185 \<or> n = 186 \<or> (188 \<le> n \<and> n \<le> 190) \<or> (192 \<le> n \<and> n \<le> 214)
     \<or> (216 \<le> n \<and> n \<le> 246) \<or> 248 \<le> n)"

definition lower_char :: "char \<Rightarrow> char" where
  "lower_char c = (let n = code c in
     if (65 \<le> n \<and> n \<le> 90) \<or> (192 \<le> n \<and> n \<le> 214) \<or> (216 \<le> n \<and> n \<le> 222)
     then char_of (n + 32) else c)"

definition lower :: "string \<Rightarrow> string" where
  "lower s = map lower_char s"

text \<open>\<open>s.strip()\<close>: the whitespace at both ends is removed.\<close>

definition strip :: "string \<Rightarrow> string" where
  "strip s = rev (dropWhile is_space (rev (dropWhile is_space s)))"

text \<open>\<open>pat in s\<close>: \<open>pat\<close> occurs in \<open>s\<close> as a contiguous piece.\<close>

fun contains :: "string \<Rightarrow> string \<Rightarrow> bool" where
  "contains pat [] = (pat = [])"
| "contains pat (c # cs) = (prefix pat (c # cs) \<or> contains pat cs)"

text \<open>The text before and the text after the leftmost occurrence of \<open>pat\<close>, if there is one.\<close>

fun split_first :: "string \<Rightarrow> string \<Rightarrow> (string \<times> string) option" where
  "split_first pat [] = (if pat = [] then Some ([], []) else None)"
| "split_first pat (c # cs) =
     (if prefix pat (c # cs) then Some ([], drop (length pat) (c # cs))
      else map_option (\<lambda>(b, a). (c # b, a)) (split_first pat cs))"

text \<open>
  \<open>re.finditer\<close> and \<open>re.findall\<close> for a pattern that never matches the empty text: the
  text is searched from the left, a match is tried at every position that the previous match
  has not consumed, and the search goes on where a match ended. The matcher \<open>m\<close> is given the
  text from a position on and returns what the match captured and the text after the match.
\<close>

fun scan :: "(string \<Rightarrow> ('a \<times> string) option) \<Rightarrow> nat \<Rightarrow> string \<Rightarrow> 'a list" where
  "scan m skip [] = []"
| "scan m skip (c # cs) =
     (if 0 < skip then scan m (skip - 1) cs
      else (case m (c # cs) of
              None \<Rightarrow> scan m 0 cs
            | Some (x, rest) \<Rightarrow> x # scan m (length cs - length rest) cs))"

definition finditer :: "(string \<Rightarrow> ('a \<times> string) option) \<Rightarrow> string \<Rightarrow> 'a list" where
  "finditer m s = scan m 0 s"


definition dquote :: char where
  "dquote = CHR 0x22"

definition squote :: char where
  "squote = CHR 0x27"

definition backslash :: char where
  "backslash = CHR 0x5C"

definition is_quote :: "char \<Rightarrow> bool" where
  "is_quote c = (c = dquote \<or> c = squote)"

definition is_digit :: "char \<Rightarrow> bool" where
  "is_digit c = (48 \<le> code c \<and> code c \<le> 57)"

section \<open>The standard library's \<open>json.loads\<close>\<close>

text \<open>
  The values \<open>json.loads\<close> returns. A decoded string is a Python \<open>str\<close>; an escape
  \<open>\\uXXXX\<close> can put any code point into it, so it is a list of code points, and \<open>ustr\<close>
  takes a text of the model to that form. A float is kept as the text of its literal: no
  claim depends on its value. A JSON object becomes a \<open>dict\<close>, an association list in
  insertion order whose keys are distinct.
\<close>

type_synonym ustring = "nat list"

definition ustr :: "string \<Rightarrow> ustring" where
  "ustr s = map code s"

datatype json =
    JNull
  | JBool bool
  | JInt int
  | JFloat string
  | JString ustring
  | JArray "json list"
  | JObject "(ustring \<times> json) list"

text \<open>
  The exceptions of the model. \<open>json.loads\<close> raises \<open>JSONDecodeError\<close> on a malformed
  document, \<open>ValueError\<close> on an integer literal of more than 4300 digits (the limit of the
  conversion from text to \<open>int\<close>), and \<open>RecursionError\<close> when arrays and objects are nested
  deeper than the recursion limit of the interpreter allows.
\<close>

datatype py_error = JSONDecodeError | TypeError | ValueError | RecursionError

text \<open>
  The scanner reads the text from the left. \<open>TBigInt\<close> stands for an integer literal over
  the digit limit and \<open>TBad\<close> for a place where no token can be read; both become an
  exception only when the decoder gets there, so that the first error from the left is the
  one that is raised.
\<close>

datatype token =
    TLBrace | TRBrace | TLBrack | TRBrack | TColon | TComma
  | TString ustring
  | TValue json
  | TBigInt
  | TBad

definition hex_val :: "char \<Rightarrow> nat option" where
  "hex_val c = (let n = code c in
     if 48 \<le> n \<and> n \<le> 57 then Some (n - 48)
     else if 97 \<le> n \<and> n \<le> 102 then Some (n - 87)
     else if 65 \<le> n \<and> n \<le> 70 then Some (n - 55)
     else None)"

definition hex4 :: "char \<Rightarrow> char \<Rightarrow> char \<Rightarrow> char \<Rightarrow> nat option" where
  "hex4 a b c d =
     (case (hex_val a, hex_val b, hex_val c, hex_val d) of
        (Some x, Some y, Some z, Some w) \<Rightarrow> Some (((x * 16 + y) * 16 + z) * 16 + w)
      | _ \<Rightarrow> None)"

definition unescape :: "char \<Rightarrow> nat option" where
  "unescape e =
     (if e = dquote \<or> e = backslash \<or> e = CHR ''/'' then Some (code e)
      else if e = CHR ''b'' then Some 8
      else if e = CHR ''f'' then Some 12
      else if e = CHR ''n'' then Some 10
      else if e = CHR ''r'' then Some 13
      else if e = CHR ''t'' then Some 9
      else None)"

text \<open>
  A high surrogate \<open>n\<close> (D800 to DBFF) that is followed by an escape of a low surrogate
  (DC00 to DFFF) is joined with it to one code point; \<open>t\<close> is the text after the first
  escape.
\<close>

definition pair_value :: "nat \<Rightarrow> string \<Rightarrow> nat option" where
  "pair_value n t =
     (if 55296 \<le> n \<and> n \<le> 56319 then
        (case t of
           b # u # h1 # h2 # h3 # h4 # t' \<Rightarrow>
             if b = backslash \<and> u = CHR ''u'' then
               (case hex4 h1 h2 h3 h4 of
                  None \<Rightarrow> None
                | Some m \<Rightarrow>
                    if 56320 \<le> m \<and> m \<le> 57343
                    then Some (65536 + (n - 55296) * 1024 + (m - 56320)) else None)
             else None
         | _ \<Rightarrow> None)
      else None)"

text \<open>
  The text of a JSON string after its opening quote: the decoded code points and what
  follows the closing quote. A control character inside the string, an unknown escape and
  a missing closing quote are errors (the decoder is strict).
\<close>

fun lex_string :: "ustring \<Rightarrow> string \<Rightarrow> (ustring \<times> string) option" where
  "lex_string acc [] = None"
| "lex_string acc (c # cs) =
     (if c = dquote then Some (rev acc, cs)
      else if c = backslash then
        (case cs of
           [] \<Rightarrow> None
         | e # r \<Rightarrow>
             (if e = CHR ''u'' then
                (case r of
                   h1 # h2 # h3 # h4 # r' \<Rightarrow>
                     (case hex4 h1 h2 h3 h4 of
                        None \<Rightarrow> None
                      | Some n \<Rightarrow>
                          (case pair_value n r' of
                             Some m \<Rightarrow> lex_string (m # acc) (drop 6 r')
                           | None \<Rightarrow> lex_string (n # acc) r'))
                 | _ \<Rightarrow> None)
              else (case unescape e of
                      None \<Rightarrow> None
                    | Some x \<Rightarrow> lex_string (x # acc) r)))
      else if code c < 32 then None
      else lex_string (code c # acc) cs)"

definition digits_val :: "string \<Rightarrow> int" where
  "digits_val ds = foldl (\<lambda>a d. 10 * a + int (code d - 48)) 0 ds"

text \<open>
  A number is the longest text of the form \<open>-?(0|[1-9][0-9]*)(\.[0-9]+)?([eE][-+]?[0-9]+)?\<close>
  at the start; with a fraction or an exponent it is a float, otherwise an integer, which
  is converted only if it has at most 4300 digits.
\<close>

definition lex_frac :: "string \<Rightarrow> string" where
  "lex_frac t =
     (case t of
        c # u \<Rightarrow> if c = CHR ''.'' \<and> takeWhile is_digit u \<noteq> [] then dropWhile is_digit u else t
      | [] \<Rightarrow> t)"

definition lex_exp :: "string \<Rightarrow> string" where
  "lex_exp t =
     (case t of
        c # u \<Rightarrow>
          if c = CHR ''e'' \<or> c = CHR ''E'' then
            (let v = (case u of s # w \<Rightarrow> if s = CHR ''+'' \<or> s = CHR ''-'' then w else u | [] \<Rightarrow> u)
             in if takeWhile is_digit v \<noteq> [] then dropWhile is_digit v else t)
          else t
      | [] \<Rightarrow> t)"

definition lex_number :: "string \<Rightarrow> (token \<times> string) option" where
  "lex_number s =
     (let neg = prefix ''-'' s;
          t = (if neg then drop 1 s else s)
      in case t of
           [] \<Rightarrow> None
         | d # u \<Rightarrow>
             if \<not> is_digit d then None
             else
               (let ip = (if d = CHR ''0'' then ''0'' else takeWhile is_digit t);
                    t1 = drop (length ip) t;
                    t2 = lex_exp (lex_frac t1)
                in if length t2 < length t1
                   then Some (TValue (JFloat (take (length s - length t2) s)), t2)
                   else if 4300 < length ip then Some (TBigInt, t1)
                   else Some (TValue (JInt (if neg then - digits_val ip else digits_val ip)), t1)))"

text \<open>
  One step of the scanner at a position: whitespace (space, tab, line feed, carriage
  return) gives no token; the result is the token and the text after it.
\<close>

definition lex1 :: "string \<Rightarrow> (token option \<times> string) option" where
  "lex1 s =
     (case s of
        [] \<Rightarrow> None
      | c # cs \<Rightarrow>
          if c = CHR '' '' \<or> c = CHR 0x09 \<or> c = CHR 0x0A \<or> c = CHR 0x0D then Some (None, cs)
          else if c = CHR ''{'' then Some (Some TLBrace, cs)
          else if c = CHR ''}'' then Some (Some TRBrace, cs)
          else if c = CHR ''['' then Some (Some TLBrack, cs)
          else if c = CHR '']'' then Some (Some TRBrack, cs)
          else if c = CHR '':'' then Some (Some TColon, cs)
          else if c = CHR '','' then Some (Some TComma, cs)
          else if c = dquote then
            (case lex_string [] cs of
               None \<Rightarrow> None
             | Some (v, rest) \<Rightarrow> Some (Some (TString v), rest))
          else if prefix ''null'' s then Some (Some (TValue JNull), drop 4 s)
          else if prefix ''true'' s then Some (Some (TValue (JBool True)), drop 4 s)
          else if prefix ''false'' s then Some (Some (TValue (JBool False)), drop 5 s)
          else if prefix ''NaN'' s then Some (Some (TValue (JFloat ''NaN'')), drop 3 s)
          else if prefix ''Infinity'' s then Some (Some (TValue (JFloat ''Infinity'')), drop 8 s)
          else if prefix ''-Infinity'' s then Some (Some (TValue (JFloat ''-Infinity'')), drop 9 s)
          else (case lex_number s of
                  None \<Rightarrow> None
                | Some (t, rest) \<Rightarrow> Some (Some t, rest)))"

fun lex :: "nat \<Rightarrow> string \<Rightarrow> token list" where
  "lex skip [] = []"
| "lex skip (c # cs) =
     (if 0 < skip then lex (skip - 1) cs
      else (case lex1 (c # cs) of
              None \<Rightarrow> [TBad]
            | Some (tok, rest) \<Rightarrow>
                (case tok of
                   None \<Rightarrow> lex (length cs - length rest) cs
                 | Some t \<Rightarrow> t # lex (length cs - length rest) cs)))"

text \<open>
  The decoder proper, as a machine over the tokens with a stack of the containers that are
  open. A member of an object is stored as \<open>dict[key] = value\<close>: a repeated key keeps its
  first position and takes the last value.

  The decoder calls itself for every array and object inside another one, and the
  interpreter raises \<open>RecursionError\<close> when the calls go deeper than its recursion limit
  (1000 unless changed) less the frames in use at the call. That depth is positive and not
  fixed by the source; it is the parameter \<open>room\<close>: \<open>Suc room\<close> containers can be open at
  a time. CPython can raise \<open>RecursionError\<close> also in place of a \<open>JSONDecodeError\<close> that
  arises within a few levels of that depth (it builds the exception object by a call);
  the model does not follow it there and gives \<open>JSONDecodeError\<close>. For this reason the
  properties of the reconciler that speak about every response take the decoder as a
  parameter, and where an example evaluates \<open>json_loads\<close> to a value or to
  \<open>JSONDecodeError\<close>, its text is nested at most one level deep.
\<close>

datatype frame = FArr "json list" | FObj "(ustring \<times> json) list" | FKey ustring

datatype pstate = Value | ValueOrEnd | KeyOrEnd | Key | Colon | AfterElem | AfterMember | Done json

fun reduce :: "json \<Rightarrow> frame list \<Rightarrow> py_error + (pstate \<times> frame list)" where
  "reduce v [] = Inr (Done v, [])"
| "reduce v (FArr xs # st) = Inr (AfterElem, FArr (xs @ [v]) # st)"
| "reduce v (FKey k # FObj ps # st) = Inr (AfterMember, FObj (AList.update k v ps) # st)"
| "reduce v _ = Inl JSONDecodeError"

fun close_arr :: "frame list \<Rightarrow> py_error + (pstate \<times> frame list)" where
  "close_arr (FArr xs # st) = reduce (JArray xs) st"
| "close_arr _ = Inl JSONDecodeError"

fun close_obj :: "frame list \<Rightarrow> py_error + (pstate \<times> frame list)" where
  "close_obj (FObj ps # st) = reduce (JObject ps) st"
| "close_obj _ = Inl JSONDecodeError"

fun is_container :: "frame \<Rightarrow> bool" where
  "is_container (FKey k) = False"
| "is_container _ = True"

definition open_containers :: "frame list \<Rightarrow> nat" where
  "open_containers st = length (filter is_container st)"

fun open_value :: "nat \<Rightarrow> token \<Rightarrow> frame list \<Rightarrow> py_error + (pstate \<times> frame list)" where
  "open_value room TLBrack st =
     (if open_containers st \<le> room then Inr (ValueOrEnd, FArr [] # st) else Inl RecursionError)"
| "open_value room TLBrace st =
     (if open_containers st \<le> room then Inr (KeyOrEnd, FObj [] # st) else Inl RecursionError)"
| "open_value room (TString s) st = reduce (JString s) st"
| "open_value room (TValue v) st = reduce v st"
| "open_value room TBigInt st = Inl ValueError"
| "open_value room _ st = Inl JSONDecodeError"

fun step :: "nat \<Rightarrow> pstate \<Rightarrow> frame list \<Rightarrow> token \<Rightarrow> py_error + (pstate \<times> frame list)" where
  "step room Value st tok = open_value room tok st"
| "step room ValueOrEnd st tok = (if tok = TRBrack then close_arr st else open_value room tok st)"
| "step room KeyOrEnd st tok =
     (case tok of
        TString k \<Rightarrow> Inr (Colon, FKey k # st)
      | TRBrace \<Rightarrow> close_obj st
      | _ \<Rightarrow> Inl JSONDecodeError)"
| "step room Key st tok =
     (case tok of TString k \<Rightarrow> Inr (Colon, FKey k # st) | _ \<Rightarrow> Inl JSONDecodeError)"
| "step room Colon st tok = (if tok = TColon then Inr (Value, st) else Inl JSONDecodeError)"
| "step room AfterElem st tok =
     (if tok = TComma then Inr (Value, st)
      else if tok = TRBrack then close_arr st else Inl JSONDecodeError)"
| "step room AfterMember st tok =
     (if tok = TComma then Inr (Key, st)
      else if tok = TRBrace then close_obj st else Inl JSONDecodeError)"
| "step room (Done v) st tok = Inl JSONDecodeError"

fun parse :: "nat \<Rightarrow> pstate \<Rightarrow> frame list \<Rightarrow> token list \<Rightarrow> py_error + json" where
  "parse room (Done v) st [] = Inr v"
| "parse room s st [] = Inl JSONDecodeError"
| "parse room s st (tok # toks) =
     (case step room s st tok of
        Inl e \<Rightarrow> Inl e
      | Inr (s', st') \<Rightarrow> parse room s' st' toks)"

definition json_loads :: "nat \<Rightarrow> string \<Rightarrow> py_error + json" where
  "json_loads room s = parse room Value [] (lex 0 s)"

text \<open>\<open>len(x)\<close> on a decoded value: only a dict, a list and a str have a length.\<close>

fun py_len :: "json \<Rightarrow> py_error + nat" where
  "py_len (JObject ps) = Inr (length ps)"
| "py_len (JArray xs) = Inr (length xs)"
| "py_len (JString s) = Inr (length s)"
| "py_len _ = Inl TypeError"

section \<open>The response reconciler (\<open>llm.py\<close>)\<close>

text \<open>
  \<open>re.search(r"```json\s*([\s\S]*?)\s*```", response)\<close> and its group 1. The search
  takes the leftmost opening fence; the lazy group ends before the first closing fence after
  it, and the two \<open>\\s*\<close> take the whitespace at both ends of what lies between, so the
  group is that text stripped. With no closing fence after the leftmost opening fence there
  is no match at all, since a later opening fence would itself be a closing fence for the
  first one.
\<close>

definition re_search_json :: "string \<Rightarrow> string option" where
  "re_search_json response =
     (case split_first ''```json'' response of
        None \<Rightarrow> None
      | Some (before, rest) \<Rightarrow>
          (case split_first ''```'' rest of
             None \<Rightarrow> None
           | Some (inner, after) \<Rightarrow> Some (strip inner)))"

text \<open>
  The pattern of \<open>_extract_files_manually\<close>,
  \<open>---\s*File:\s*([\w\./\\-]+)\s*---\s*([\s\S]*?)(?=---\s*File:|$)\<close>.
  The path class contains \<open>-\<close>, so the greedy path group may have to give characters back
  to let \<open>---\<close> match: it is the longest non-empty part of the run of path characters
  after which optional whitespace and \<open>---\<close> follow. The lazy body group ends at the first
  position where the lookahead holds: a next marker begins, or the text ends (\<open>$\<close> also
  holds before a line feed that ends the text).
\<close>

definition is_pathchar :: "char \<Rightarrow> bool" where
  "is_pathchar c = (is_word c \<or> c = CHR ''.'' \<or> c = CHR ''/'' \<or> c = backslash \<or> c = CHR ''-'')"

definition ws_dashes :: "string \<Rightarrow> string option" where
  "ws_dashes t = (let u = dropWhile is_space t in if prefix ''---'' u then Some (drop 3 u) else None)"

fun longest_path :: "string \<Rightarrow> (string \<times> string) option" where
  "longest_path [] = None"
| "longest_path (c # cs) =
     (if is_pathchar c then
        (case longest_path cs of
           Some (p, rest) \<Rightarrow> Some (c # p, rest)
         | None \<Rightarrow> (case ws_dashes cs of Some rest \<Rightarrow> Some ([c], rest) | None \<Rightarrow> None))
      else None)"

definition lookahead :: "string \<Rightarrow> bool" where
  "lookahead t = (t = [] \<or> t = [CHR 0x0A]
     \<or> (prefix ''---'' t \<and> prefix ''File:'' (dropWhile is_space (drop 3 t))))"

fun lazy_body :: "string \<Rightarrow> string \<times> string" where
  "lazy_body [] = ([], [])"
| "lazy_body (c # cs) =
     (if lookahead (c # cs) then ([], c # cs)
      else (case lazy_body cs of (b, rest) \<Rightarrow> (c # b, rest)))"

definition match_file_section :: "string \<Rightarrow> ((string \<times> string) \<times> string) option" where
  "match_file_section s =
     (if \<not> prefix ''---'' s then None
      else let t = dropWhile is_space (drop 3 s) in
        if \<not> prefix ''File:'' t then None
        else (case longest_path (dropWhile is_space (drop 5 t)) of
                None \<Rightarrow> None
              | Some (path, u) \<Rightarrow>
                  (case lazy_body (dropWhile is_space u) of
                     (body, rest) \<Rightarrow> Some ((path, body), rest))))"

definition extract_files_manually :: "string \<Rightarrow> (string \<times> string) list" where
  "extract_files_manually text =
     fold (\<lambda>(file_path, content) files. AList.update (strip file_path) (strip content) files)
       (finditer match_file_section text) []"

text \<open>A \<open>dict[str, str]\<close> as a value of the type \<open>json.loads\<close> returns.\<close>

definition dict_json :: "(string \<times> string) list \<Rightarrow> json" where
  "dict_json files = JObject (map (\<lambda>(k, v). (ustr k, JString (ustr v))) files)"

text \<open>
  \<open>_extract_modified_files\<close>. The function \<open>json.loads\<close> of the running interpreter is the
  parameter \<open>loads\<close>: from a text to the value it returns or the exception it raises.

  The body of the \<open>try\<close>: the decoded value is returned after \<open>len\<close> of it has been
  computed for the log message, so a value without a length raises \<open>TypeError\<close> there.
\<close>

definition loads_logged :: "(string \<Rightarrow> py_error + json) \<Rightarrow> string \<Rightarrow> py_error + json" where
  "loads_logged loads json_str =
     (case loads json_str of
        Inl e \<Rightarrow> Inl e
      | Inr modified_files \<Rightarrow>
          (case py_len modified_files of Inl e \<Rightarrow> Inl e | Inr n \<Rightarrow> Inr modified_files))"

definition try_parse :: "(string \<Rightarrow> py_error + json) \<Rightarrow> string \<Rightarrow> py_error + json" where
  "try_parse loads response =
     (case re_search_json response of
        Some json_str \<Rightarrow> loads_logged loads json_str
      | None \<Rightarrow> loads_logged loads response)"

text \<open>\<open>except json.JSONDecodeError\<close> catches that error only; any other one propagates.\<close>

definition extract_modified_files :: "(string \<Rightarrow> py_error + json) \<Rightarrow> string \<Rightarrow> py_error + json" where
  "extract_modified_files loads response =
     (case try_parse loads response of
        Inl JSONDecodeError \<Rightarrow> Inr (dict_json (extract_files_manually response))
      | Inl e \<Rightarrow> Inl e
      | Inr modified_files \<Rightarrow> Inr modified_files)"

section \<open>The standard library's \<open>os.path\<close> (POSIX)\<close>

text \<open>
  \<open>os.path.dirname\<close>, \<open>os.path.join\<close> (for two arguments) and \<open>os.path.normpath\<close> as
  they are on a POSIX system, where \<open>/\<close> separates the parts of a path.
\<close>

definition dirname :: "string \<Rightarrow> string" where
  "dirname p =
     (let head = rev (dropWhile (\<lambda>c. c \<noteq> CHR ''/'') (rev p))
      in if head \<noteq> [] \<and> filter (\<lambda>c. c \<noteq> CHR ''/'') head \<noteq> []
         then rev (dropWhile (\<lambda>c. c = CHR ''/'') (rev head)) else head)"

definition join :: "string \<Rightarrow> string \<Rightarrow> string" where
  "join a b =
     (if prefix ''/'' b then b
      else if a = [] \<or> suffix ''/'' a then a @ b
      else a @ ''/'' @ b)"

fun split_on :: "char \<Rightarrow> string \<Rightarrow> string list" where
  "split_on sep [] = [[]]"
| "split_on sep (c # cs) =
     (case split_on sep cs of
        [] \<Rightarrow> []
      | w # ws \<Rightarrow> if c = sep then [] # w # ws else (c # w) # ws)"

fun join_with :: "string \<Rightarrow> string list \<Rightarrow> string" where
  "join_with sep [] = []"
| "join_with sep [w] = w"
| "join_with sep (w # ws) = w @ sep @ join_with sep ws"

definition norm_step :: "nat \<Rightarrow> string list \<Rightarrow> string \<Rightarrow> string list" where
  "norm_step initial_slashes new_comps c =
     (if c = [] \<or> c = ''.'' then new_comps
      else if c \<noteq> ''..'' \<or> (initial_slashes = 0 \<and> new_comps = [])
              \<or> (new_comps \<noteq> [] \<and> last new_comps = ''..'')
      then new_comps @ [c]
      else if new_comps \<noteq> [] then butlast new_comps
      else new_comps)"

definition normpath :: "string \<Rightarrow> string" where
  "normpath path =
     (if path = [] then ''.''
      else
        (let initial_slashes =
               (if prefix ''/'' path
                then (if prefix ''//'' path \<and> \<not> prefix ''///'' path then 2 else 1)
                else 0);
             comps = foldl (norm_step initial_slashes) [] (split_on (CHR ''/'') path);
             p = replicate initial_slashes (CHR ''/'') @ join_with ''/'' comps
         in if p = [] then ''.'' else p))"

section \<open>The dependency graph (\<open>terraform_analyzer.py\<close>)\<close>

text \<open>
  The module pattern,
  \<open>module\s+["\']([\w-]+)["\']\s*{[^}]*source\s*=\s*["\']([\w\.\/-]+)["\']\<close>; the matcher
  returns group 2. The greedy \<open>[^}]*\<close> runs to the first closing brace and then gives
  characters back until a \<open>source\<close> attribute follows, so the last such attribute before
  that brace is the one captured.
\<close>

definition is_namechar :: "char \<Rightarrow> bool" where
  "is_namechar c = (is_word c \<or> c = CHR ''-'')"

definition is_sourcechar :: "char \<Rightarrow> bool" where
  "is_sourcechar c = (is_word c \<or> c = CHR ''.'' \<or> c = CHR ''/'' \<or> c = CHR ''-'')"

definition quoted :: "(char \<Rightarrow> bool) \<Rightarrow> string \<Rightarrow> (string \<times> string) option" where
  "quoted cls t =
     (case t of
        [] \<Rightarrow> None
      | q # u \<Rightarrow>
          if \<not> is_quote q \<or> takeWhile cls u = [] then None
          else (case dropWhile cls u of
                  [] \<Rightarrow> None
                | q' # rest \<Rightarrow> if is_quote q' then Some (takeWhile cls u, rest) else None))"

definition match_source :: "string \<Rightarrow> (string \<times> string) option" where
  "match_source t =
     (if \<not> prefix ''source'' t then None
      else let u = dropWhile is_space (drop 6 t) in
        if \<not> prefix ''='' u then None
        else quoted is_sourcechar (dropWhile is_space (drop 1 u)))"

fun find_last_source :: "string \<Rightarrow> (string \<times> string) option" where
  "find_last_source [] = None"
| "find_last_source (c # cs) =
     (if c = CHR ''}'' then None
      else (case find_last_source cs of
              Some r \<Rightarrow> Some r
            | None \<Rightarrow> match_source (c # cs)))"

definition match_module :: "string \<Rightarrow> (string \<times> string) option" where
  "match_module s =
     (if \<not> prefix ''module'' s then None
      else let t = drop 6 s in
        if takeWhile is_space t = [] then None
        else (case quoted is_namechar (dropWhile is_space t) of
                None \<Rightarrow> None
              | Some (name, u) \<Rightarrow>
                  (let v = dropWhile is_space u in
                   if prefix ''{'' v then find_last_source (drop 1 v) else None)))"

definition extract_module_sources :: "string \<Rightarrow> string list" where
  "extract_module_sources content = finditer match_module content"

text \<open>
  The variable pattern \<open>var\.([a-zA-Z0-9_-]+)\<close>. \<open>list(set(matches))\<close> keeps one copy of
  every name, in an order Python does not fix; no property below depends on the order.
\<close>

definition is_varchar :: "char \<Rightarrow> bool" where
  "is_varchar c = (is_ascii_alnum c \<or> c = CHR ''_'' \<or> c = CHR ''-'')"

definition match_var :: "string \<Rightarrow> (string \<times> string) option" where
  "match_var s =
     (if prefix ''var.'' s \<and> takeWhile is_varchar (drop 4 s) \<noteq> []
      then Some (takeWhile is_varchar (drop 4 s), dropWhile is_varchar (drop 4 s))
      else None)"

definition extract_variable_references :: "string \<Rightarrow> string list" where
  "extract_variable_references content = remdups (finditer match_var content)"

type_synonym corpus = "(string \<times> string) list"
type_synonym graph = "(string \<times> string list) list"

record analyzer =
  file_contents :: corpus
  dependency_graph :: graph

text \<open>
  \<open>self.dependency_graph[file_path].append(other_file)\<close>. The loader gives every loaded file
  an entry in the graph before the graph is built, so the lookup finds the key; without the
  key Python raises \<open>KeyError\<close>, a case that does not arise and that leaves the graph as it is
  here.
\<close>

definition append_dep :: "string \<Rightarrow> string \<Rightarrow> graph \<Rightarrow> graph" where
  "append_dep file_path other_file g =
     (case map_of g file_path of
        None \<Rightarrow> g
      | Some deps \<Rightarrow> AList.update file_path (deps @ [other_file]) g)"

definition is_relative :: "string \<Rightarrow> bool" where
  "is_relative source = (prefix ''./'' source \<or> prefix ''../'' source)"

definition source_dir :: "string \<Rightarrow> string \<Rightarrow> string" where
  "source_dir file_path source = normpath (join (dirname file_path) source)"

definition add_module_deps :: "corpus \<Rightarrow> string \<Rightarrow> string \<Rightarrow> graph \<Rightarrow> graph" where
  "add_module_deps files file_path source g =
     (if is_relative source then
        fold (\<lambda>other_file g'.
                if prefix (source_dir file_path source) other_file
                then append_dep file_path other_file g' else g')
          (map fst files) g
      else g)"

definition declares :: "string \<Rightarrow> string \<Rightarrow> bool" where
  "declares var_name other_content =
     contains (''variable '' @ [dquote] @ var_name @ [dquote]) other_content"

definition add_var_deps :: "corpus \<Rightarrow> string \<Rightarrow> string \<Rightarrow> graph \<Rightarrow> graph" where
  "add_var_deps files file_path var_name g =
     fold (\<lambda>(other_file, other_content) g'.
             if declares var_name other_content
             then append_dep file_path other_file g' else g')
       files g"

definition add_file_deps :: "corpus \<Rightarrow> string \<times> string \<Rightarrow> graph \<Rightarrow> graph" where
  "add_file_deps files = (\<lambda>(file_path, content) g.
     (let module_sources = extract_module_sources content;
          var_refs = extract_variable_references content
      in fold (add_var_deps files file_path) var_refs
           (fold (add_module_deps files file_path) module_sources g)))"

definition build_dependency_graph :: "analyzer \<Rightarrow> analyzer" where
  "build_dependency_graph a =
     a\<lparr>dependency_graph := fold (add_file_deps (file_contents a)) (file_contents a) (dependency_graph a)\<rparr>"

text \<open>
  The loader is given what the file system holds: every path found with what reading it
  returned, \<open>None\<close> when the read raised. Such a file is skipped.
\<close>

fun load_files :: "(string \<times> string option) list \<Rightarrow> analyzer \<Rightarrow> analyzer" where
  "load_files [] a = a"
| "load_files ((relative_path, None) # fs) a = load_files fs a"
| "load_files ((relative_path, Some file_content) # fs) a =
     load_files fs
       (a\<lparr>file_contents := AList.update relative_path file_content (file_contents a),
          dependency_graph := AList.update relative_path [] (dependency_graph a)\<rparr>)"

definition load_terraform_files :: "(string \<times> string option) list \<Rightarrow> analyzer \<Rightarrow> analyzer" where
  "load_terraform_files fs a = build_dependency_graph (load_files fs a)"

definition TerraformAnalyzer :: "(string \<times> string option) list \<Rightarrow> analyzer" where
  "TerraformAnalyzer fs = load_terraform_files fs \<lparr>file_contents = [], dependency_graph = []\<rparr>"


section \<open>The relevance selector (\<open>terraform_analyzer.py\<close>)\<close>

text \<open>
  \<open>_find_all_dependencies\<close> with the set \<open>visited\<close> that all recursive calls share passed
  through. The result is what the call returns or raises, the set after the call, and the
  files that were expanded by the call (those that passed the test
  \<open>file_path in visited\<close>), in the order in which they were expanded. \<open>visit_deps\<close> is the
  loop over the dependencies of one file. \<open>list(set(dependencies))\<close> keeps one copy of
  every path, in an order Python does not fix; no property below depends on the order.

  The function calls itself, and the interpreter raises \<open>RecursionError\<close> when the calls
  go deeper than its recursion limit allows. \<open>frames\<close> is the number of nested calls of
  \<open>_find_all_dependencies\<close> that the limit leaves room for where the traversal starts; an
  exception ends the loops of all the calls that are open.
\<close>

fun find_all_dependencies ::
    "graph \<Rightarrow> nat \<Rightarrow> string \<Rightarrow> string set \<Rightarrow> (py_error + string list) \<times> string set \<times> string list"
  and visit_deps ::
    "graph \<Rightarrow> nat \<Rightarrow> string list \<Rightarrow> string set \<Rightarrow> (py_error + string list) \<times> string set \<times> string list"
where
  "find_all_dependencies g 0 file_path visited = (Inl RecursionError, visited, [])"
| "find_all_dependencies g (Suc frames) file_path visited =
     (if file_path \<in> visited then (Inr [], visited, [])
      else (case visit_deps g frames (case map_of g file_path of None \<Rightarrow> [] | Some ds \<Rightarrow> ds)
                   (insert file_path visited) of
              (Inl e, visited', expanded) \<Rightarrow> (Inl e, visited', file_path # expanded)
            | (Inr dependencies, visited', expanded) \<Rightarrow>
                (Inr (remdups dependencies), visited', file_path # expanded)))"
| "visit_deps g frames [] visited = (Inr [], visited, [])"
| "visit_deps g frames (dep # deps) visited =
     (case find_all_dependencies g frames dep visited of
        (Inl e, visited1, expanded1) \<Rightarrow> (Inl e, visited1, expanded1)
      | (Inr sub, visited1, expanded1) \<Rightarrow>
          (case visit_deps g frames deps visited1 of
             (Inl e, visited2, expanded2) \<Rightarrow> (Inl e, visited2, expanded1 @ expanded2)
           | (Inr rest, visited2, expanded2) \<Rightarrow>
               (Inr (dep # sub @ rest), visited2, expanded1 @ expanded2)))"

definition terraform_keywords :: "string list" where
  "terraform_keywords =
     [''vpc'', ''subnet'', ''security_group'', ''nacl'', ''sg'', ''security'', ''network'',
      ''flow_log'', ''encryption'', ''firewall'', ''route'', ''gateway'', ''iam'', ''policy'',
      ''ec2'', ''rds'', ''lambda'', ''s3'', ''kms'', ''ssl'', ''tls'', ''https'', ''alb'', ''elb'',
      ''load_balancer'', ''autoscaling'', ''cloudwatch'', ''logs'', ''cloudtrail'', ''monitoring'',
      ''alerts'', ''backup'', ''storage'']"

definition stop_words :: "string list" where
  "stop_words =
     [''update'', ''the'', ''by'', ''adding'', ''and'', ''or'', ''with'', ''for'', ''to'', ''in'', ''on'',
      ''a'', ''an'', ''this'', ''that'', ''these'', ''those'', ''our'', ''your'', ''my'', ''mine'', ''we'',
      ''need'', ''want'', ''should'', ''will'']"

text \<open>
  \<open>re.findall(r"\b\w{3,}\b", prompt_lower)\<close>: a match begins at a word boundary, and the
  greedy \<open>\\w{3,}\<close> must end at one, so the matches are the maximal runs of word characters
  that have at least three characters, from left to right. \<open>word_runs\<close> collects the
  maximal runs; its first argument holds the run being read, last character first.
\<close>

fun word_runs :: "string \<Rightarrow> string \<Rightarrow> string list" where
  "word_runs acc [] = (if acc = [] then [] else [rev acc])"
| "word_runs acc (c # cs) =
     (if is_word c then word_runs (c # acc) cs
      else (if acc = [] then [] else [rev acc]) @ word_runs [] cs)"

definition findall_words :: "string \<Rightarrow> string list" where
  "findall_words s = filter (\<lambda>w. 3 \<le> length w) (word_runs [] s)"

definition extract_keywords_from_prompt :: "string \<Rightarrow> string list" where
  "extract_keywords_from_prompt prompt =
     (let prompt_lower = lower prompt;
          found_keywords = filter (\<lambda>keyword. contains keyword prompt_lower) terraform_keywords
      in if found_keywords = []
         then filter (\<lambda>word. word \<notin> set stop_words) (findall_words prompt_lower)
         else found_keywords)"

text \<open>\<open>key in d\<close> for a dict \<open>d\<close>.\<close>

definition has_key :: "'k \<Rightarrow> ('k \<times> 'v) list \<Rightarrow> bool" where
  "has_key k d = (k \<in> set (map fst d))"

definition keyword_hit :: "string list \<Rightarrow> string \<Rightarrow> string \<Rightarrow> bool" where
  "keyword_hit keywords file_path content =
     (list_ex (\<lambda>keyword. contains keyword (lower content)) keywords
      \<or> list_ex (\<lambda>keyword. contains keyword (lower file_path)) keywords)"

text \<open>First pass: the files with a direct keyword reference.\<close>

definition first_pass :: "analyzer \<Rightarrow> string list \<Rightarrow> corpus" where
  "first_pass a keywords =
     fold (\<lambda>(file_path, content) relevant_files.
             if keyword_hit keywords file_path content
             then AList.update file_path content relevant_files else relevant_files)
       (file_contents a) []"

definition vpc_keywords :: "string list" where
  "vpc_keywords = [''vpc'', ''subnet'', ''cidr'', ''network'', ''route'', ''gateway'']"

text \<open>If the prompt mentions VPC, the VPC-related files are included as well.\<close>

definition vpc_pass :: "analyzer \<Rightarrow> string \<Rightarrow> corpus \<Rightarrow> corpus" where
  "vpc_pass a prompt relevant_files =
     (if list_ex (\<lambda>vpc_term. contains vpc_term (lower prompt)) [''vpc'', ''network'']
      then fold (\<lambda>(file_path, content) relevant_files.
                   if \<not> has_key file_path relevant_files \<and> keyword_hit vpc_keywords file_path content
                   then AList.update file_path content relevant_files else relevant_files)
             (file_contents a) relevant_files
      else relevant_files)"

text \<open>
  Second pass: the dependencies of the files found so far. \<open>add_dependency\<close> is the body
  of the inner loop, \<open>collect_dependencies\<close> the loop over the files of \<open>relevant_files\<close>;
  every traversal starts with a fresh set \<open>visited\<close>, and an exception of a traversal ends
  \<open>find_relevant_files\<close>.
\<close>

definition add_dependency :: "analyzer \<Rightarrow> corpus \<Rightarrow> string \<Rightarrow> corpus \<Rightarrow> corpus" where
  "add_dependency a relevant_files dep dependency_files =
     (if \<not> has_key dep relevant_files then
        (case map_of (file_contents a) dep of
           Some content \<Rightarrow> AList.update dep content dependency_files
         | None \<Rightarrow> dependency_files)
      else dependency_files)"

fun collect_dependencies ::
    "nat \<Rightarrow> analyzer \<Rightarrow> corpus \<Rightarrow> string list \<Rightarrow> corpus \<Rightarrow> py_error + corpus" where
  "collect_dependencies frames a relevant_files [] dependency_files = Inr dependency_files"
| "collect_dependencies frames a relevant_files (file_path # file_paths) dependency_files =
     (case fst (find_all_dependencies (dependency_graph a) frames file_path {}) of
        Inl e \<Rightarrow> Inl e
      | Inr dependencies \<Rightarrow>
          collect_dependencies frames a relevant_files file_paths
            (fold (add_dependency a relevant_files) dependencies dependency_files))"

definition dict_update :: "('k \<times> 'v) list \<Rightarrow> ('k \<times> 'v) list \<Rightarrow> ('k \<times> 'v) list" where
  "dict_update d other = fold (\<lambda>(k, v) d'. AList.update k v d') other d"

definition second_pass :: "nat \<Rightarrow> analyzer \<Rightarrow> corpus \<Rightarrow> py_error + corpus" where
  "second_pass frames a relevant_files =
     (case collect_dependencies frames a relevant_files (map fst relevant_files) [] of
        Inl e \<Rightarrow> Inl e
      | Inr dependency_files \<Rightarrow> Inr (dict_update relevant_files dependency_files))"

definition is_important :: "string \<Rightarrow> bool" where
  "is_important file_path =
     (suffix ''main.tf'' file_path \<or> suffix ''variables.tf'' file_path \<or> suffix ''outputs.tf'' file_path)"

text \<open>With fewer than three files so far, \<open>main.tf\<close> and the other important files are added.\<close>

definition important_pass :: "analyzer \<Rightarrow> corpus \<Rightarrow> corpus" where
  "important_pass a relevant_files =
     (if length relevant_files < 3
      then fold (\<lambda>(file_path, content) relevant_files.
                   if \<not> has_key file_path relevant_files \<and> is_important file_path
                   then AList.update file_path content relevant_files else relevant_files)
             (file_contents a) relevant_files
      else relevant_files)"

definition find_relevant_files :: "nat \<Rightarrow> analyzer \<Rightarrow> string \<Rightarrow> py_error + corpus" where
  "find_relevant_files frames a prompt =
     (case second_pass frames a
             (vpc_pass a prompt (first_pass a (extract_keywords_from_prompt prompt))) of
        Inl e \<Rightarrow> Inl e
      | Inr relevant_files \<Rightarrow> Inr (important_pass a relevant_files))"

section \<open>Properties of the reconciler\<close>

text \<open>
  The three tiers of the reconciler and what it means for each of them to fail, for a
  decoder \<open>loads\<close>: the fenced block is missing or the decoder raises \<open>JSONDecodeError\<close> on
  its inner text; the decoder raises \<open>JSONDecodeError\<close> on the whole text; the manual
  extraction finds no section. \<open>selected_text\<close> is the text that
  \<open>_extract_modified_files\<close> hands to \<open>json.loads\<close>: the inner text of the first fenced
  block when there is one, the whole response otherwise.
\<close>

definition is_object :: "json \<Rightarrow> bool" where
  "is_object v = (case v of JObject m \<Rightarrow> True | _ \<Rightarrow> False)"

definition selected_text :: "string \<Rightarrow> string" where
  "selected_text r = (case re_search_json r of Some json_str \<Rightarrow> json_str | None \<Rightarrow> r)"

definition tier1_failed :: "(string \<Rightarrow> py_error + json) \<Rightarrow> string \<Rightarrow> bool" where
  "tier1_failed loads r =
     (case re_search_json r of None \<Rightarrow> True | Some json_str \<Rightarrow> loads json_str = Inl JSONDecodeError)"

definition tier2_failed :: "(string \<Rightarrow> py_error + json) \<Rightarrow> string \<Rightarrow> bool" where
  "tier2_failed loads r = (loads r = Inl JSONDecodeError)"

definition tier3_failed :: "string \<Rightarrow> bool" where
  "tier3_failed r = (extract_files_manually r = [])"

definition object_or_failure :: "(string \<Rightarrow> py_error + json) \<Rightarrow> string \<Rightarrow> bool" where
  "object_or_failure loads r =
     (case loads (selected_text r) of Inl e \<Rightarrow> e = JSONDecodeError | Inr v \<Rightarrow> is_object v)"

text \<open>
  The object of the round-trip example, the mapping it denotes, and a response that holds
  a fenced block: any text, the opening fence, whitespace, the inner text, whitespace, the
  closing fence, any text.
\<close>

definition example_object :: string where
  \<open>example_object = ''{"a.tf": "content-A", "b.tf": "content-B"}''\<close>

definition example_mapping :: json where
  "example_mapping = dict_json [(''a.tf'', ''content-A''), (''b.tf'', ''content-B'')]"

definition fenced_text :: "string \<Rightarrow> string \<Rightarrow> string \<Rightarrow> string \<Rightarrow> string \<Rightarrow> string" where
  "fenced_text pre ws1 inner ws2 post = pre @ ''```json'' @ ws1 @ inner @ ws2 @ ''```'' @ post"

subsection \<open>The decoder on the texts of the examples\<close>

lemma ustr_eq: "ustr s = ustr t \<longleftrightarrow> s = t"
  by (simp add: ustr_def code_def inj_on_def inj_map_eq_map)

lemma lex_empty_object: \<open>lex 0 ''{}'' = [TLBrace, TRBrace]\<close>
  by code_simp

lemma loads_empty_object: \<open>json_loads room ''{}'' = Inr (JObject [])\<close>
  by (subst json_loads_def, subst lex_empty_object) (simp add: open_containers_def)

lemma lex_x: \<open>lex 0 ''x'' = [TBad]\<close>
  by code_simp

lemma loads_x: \<open>json_loads room ''x'' = Inl JSONDecodeError\<close>
  by (subst json_loads_def, subst lex_x) simp

lemma lex_number_example: \<open>lex 0 ''123'' = [TValue (JInt 123)]\<close>
  by code_simp

lemma loads_number: \<open>json_loads room ''123'' = Inr (JInt 123)\<close>
  by (subst json_loads_def, subst lex_number_example) simp

lemma lex_member: \<open>lex 0 ''{"k": "v"}'' = [TLBrace, TString (ustr ''k''), TColon, TString (ustr ''v''), TRBrace]\<close>
  by code_simp

lemma loads_member: \<open>json_loads room ''{"k": "v"}'' = Inr (dict_json [(''k'', ''v'')])\<close>
  by (subst json_loads_def, subst lex_member) (simp add: open_containers_def dict_json_def)

lemma lex_fence_in_string:
  \<open>lex 0 ''{"a.tf": "```json x ```"}''
     = [TLBrace, TString (ustr ''a.tf''), TColon, TString (ustr ''```json x ```''), TRBrace]\<close>
  by code_simp

lemma loads_fence_in_string:
  \<open>json_loads room ''{"a.tf": "```json x ```"}'' = Inr (dict_json [(''a.tf'', ''```json x ```'')])\<close>
  by (subst json_loads_def, subst lex_fence_in_string) (simp add: open_containers_def dict_json_def)

lemma lex_sections:
  \<open>lex 0 ''--- File: a.tf ---\<newline>HELLO\<newline>--- File: b.tf ---\<newline>WORLD'' = [TBad]\<close>
  by code_simp

lemma loads_sections:
  \<open>json_loads room ''--- File: a.tf ---\<newline>HELLO\<newline>--- File: b.tf ---\<newline>WORLD'' = Inl JSONDecodeError\<close>
  by (subst json_loads_def, subst lex_sections) simp

lemma lex_example_object:
  "lex 0 example_object
     = [TLBrace, TString (ustr ''a.tf''), TColon, TString (ustr ''content-A''), TComma,
        TString (ustr ''b.tf''), TColon, TString (ustr ''content-B''), TRBrace]"
  by code_simp

lemma example_object_loads: "json_loads room example_object = Inr example_mapping"
  by (subst json_loads_def, subst lex_example_object)
     (simp add: open_containers_def dict_json_def example_mapping_def ustr_eq)

text \<open>
  The other exceptions of the decoder: nesting deeper than the recursion limit leaves room
  for, and an escape \<open>\\u0100\<close>, which is decoded to the code point 256.
\<close>

lemma deep_nesting_example: \<open>json_loads 1 ''{"a": {"b": {"c": 1}}}'' = Inl RecursionError\<close>
  by code_simp

lemma unicode_escape_example:
  "json_loads 1 [dquote, backslash, CHR ''u'', CHR ''0'', CHR ''1'', CHR ''0'', CHR ''0'', dquote]
     = Inr (JString [256])"
  by code_simp

subsection \<open>The tiers\<close>

lemma try_parse_selected: "try_parse loads r = loads_logged loads (selected_text r)"
  by (simp add: try_parse_def selected_text_def split: option.splits)

lemma extract_on_failure:
  "loads (selected_text r) = Inl JSONDecodeError \<Longrightarrow>
     extract_modified_files loads r = Inr (dict_json (extract_files_manually r))"
  by (simp add: extract_modified_files_def try_parse_selected loads_logged_def)

lemma extract_on_object:
  "loads (selected_text r) = Inr (JObject m) \<Longrightarrow> extract_modified_files loads r = Inr (JObject m)"
  by (simp add: extract_modified_files_def try_parse_selected loads_logged_def)

lemma extract_on_error:
  "loads (selected_text r) = Inl e \<Longrightarrow> e \<noteq> JSONDecodeError \<Longrightarrow> extract_modified_files loads r = Inl e"
  by (cases e) (simp_all add: extract_modified_files_def try_parse_selected loads_logged_def)

lemma dict_json_empty: "dict_json files = JObject [] \<longleftrightarrow> files = []"
  by (simp add: dict_json_def)

lemma sections_no_block:
  \<open>re_search_json ''--- File: a.tf ---\<newline>HELLO\<newline>--- File: b.tf ---\<newline>WORLD'' = None\<close>
  by code_simp

lemma sections_manual:
  \<open>extract_files_manually ''--- File: a.tf ---\<newline>HELLO\<newline>--- File: b.tf ---\<newline>WORLD''
     = [(''a.tf'', ''HELLO''), (''b.tf'', ''WORLD'')]\<close>
  by code_simp

text \<open>
  C6. For the raw text \<open>--- File: a.tf ---\<close>, line feed, \<open>HELLO\<close>, line feed,
  \<open>--- File: b.tf ---\<close>, line feed, \<open>WORLD\<close>, which has no fenced block and is no JSON
  document, \<open>_extract_modified_files\<close> returns exactly the mapping of \<open>a.tf\<close> to \<open>HELLO\<close>
  and of \<open>b.tf\<close> to \<open>WORLD\<close>: both structured parses fail, the manual extraction finds the
  two sections, and paths and contents come out trimmed.
\<close>

theorem manual_fallback_example:
  \<open>re_search_json ''--- File: a.tf ---\<newline>HELLO\<newline>--- File: b.tf ---\<newline>WORLD'' = None
   \<and> json_loads room ''--- File: a.tf ---\<newline>HELLO\<newline>--- File: b.tf ---\<newline>WORLD'' = Inl JSONDecodeError
   \<and> extract_files_manually ''--- File: a.tf ---\<newline>HELLO\<newline>--- File: b.tf ---\<newline>WORLD''
       = [(''a.tf'', ''HELLO''), (''b.tf'', ''WORLD'')]
   \<and> extract_modified_files (json_loads room) ''--- File: a.tf ---\<newline>HELLO\<newline>--- File: b.tf ---\<newline>WORLD''
       = Inr (JObject [(ustr ''a.tf'', JString (ustr ''HELLO'')), (ustr ''b.tf'', JString (ustr ''WORLD''))])\<close>
proof -
  let ?r = \<open>''--- File: a.tf ---\<newline>HELLO\<newline>--- File: b.tf ---\<newline>WORLD''\<close>
  have s: "selected_text ?r = ?r"
    by (subst selected_text_def, subst sections_no_block) simp
  have "json_loads room (selected_text ?r) = Inl JSONDecodeError"
    by (subst s) (rule loads_sections)
  then have "extract_modified_files (json_loads room) ?r = Inr (dict_json (extract_files_manually ?r))"
    by (rule extract_on_failure[of "json_loads room" "?r"])
  also have "dict_json (extract_files_manually ?r)
      = JObject [(ustr ''a.tf'', JString (ustr ''HELLO'')), (ustr ''b.tf'', JString (ustr ''WORLD''))]"
    by (subst sections_manual) (simp add: dict_json_def)
  finally show ?thesis
    using sections_no_block loads_sections sections_manual by (intro conjI)
qed

text \<open>
  C2, as the code has it. Take a response on whose selected text \<open>json.loads\<close> either
  raises \<open>JSONDecodeError\<close> or returns an object. Then \<open>_extract_modified_files\<close> raises
  nothing and returns a mapping, and the mapping is empty only if the selected text
  decodes to the empty object, or if decoding failed and the manual extraction found no
  section. (When \<open>json.loads\<close> returns a value that is not an object or raises another
  exception, the result is not described here.)
\<close>

theorem reconcile_returns_mapping:
  assumes "object_or_failure loads r"
  shows "is_object (projr (extract_modified_files loads r)) \<and> \<not> isl (extract_modified_files loads r)
     \<and> (extract_modified_files loads r = Inr (JObject []) \<longrightarrow>
          loads (selected_text r) = Inr (JObject [])
          \<or> (loads (selected_text r) = Inl JSONDecodeError \<and> tier3_failed r))"
proof (cases "loads (selected_text r)")
  case (Inl e)
  with assms have f: "loads (selected_text r) = Inl JSONDecodeError"
    by (simp add: object_or_failure_def)
  from extract_on_failure[of loads r, OF f] show ?thesis
    using f by (simp add: dict_json_def is_object_def tier3_failed_def)
next
  case (Inr v)
  with assms obtain m where m: "v = JObject m"
    by (auto simp: object_or_failure_def is_object_def split: json.splits)
  from extract_on_object[of loads r m] Inr m show ?thesis by (simp add: is_object_def)
qed

theorem reconcile_returns_mapping_witness:
  \<open>object_or_failure (json_loads 100) ''{}''
   \<and> extract_modified_files (json_loads 100) ''{}'' = Inr (JObject [])
   \<and> json_loads 100 (selected_text ''{}'') = Inr (JObject [])\<close>
proof -
  have h: \<open>object_or_failure (json_loads 100) ''{}''\<close> by code_simp
  have e: \<open>extract_modified_files (json_loads 100) ''{}'' = Inr (JObject [])\<close> by code_simp
  have n: \<open>\<not> (json_loads 100 (selected_text ''{}'') = Inl JSONDecodeError \<and> tier3_failed ''{}'')\<close>
    by code_simp
  from reconcile_returns_mapping[of "json_loads 100", OF h] e n show ?thesis using h by simp
qed

text \<open>
  C2 as stated fails on the response \<open>{}\<close>: it has no fenced block, the whole text is a
  JSON document, so the second tier succeeds, and the mapping returned is empty (here with
  room for 100 nested containers; lemma \<open>loads_empty_object\<close> gives the same for any room).
\<close>

theorem reconcile_empty_counterexample:
  \<open>extract_modified_files (json_loads 100) ''{}'' = Inr (JObject [])
   \<and> tier1_failed (json_loads 100) ''{}'' \<and> \<not> tier2_failed (json_loads 100) ''{}''\<close>
  by code_simp

text \<open>
  The response \<open>123\<close> is a JSON document that decodes to a number; computing its length
  for the log message raises \<open>TypeError\<close>, which the handler does not catch. An exception
  of the decoder other than \<open>JSONDecodeError\<close> is not caught either (lemma
  \<open>extract_on_error\<close>).
\<close>

lemma reconcile_raises_example:
  \<open>extract_modified_files (json_loads room) ''123'' = Inl TypeError\<close>
proof -
  have n: \<open>re_search_json ''123'' = None\<close> by code_simp
  show ?thesis
    by (subst extract_modified_files_def, subst try_parse_def, subst n)
       (simp add: loads_logged_def loads_number)
qed

lemma reconcile_recursion_example:
  \<open>extract_modified_files (json_loads 1) ''{"a": {"b": {"c": 1}}}'' = Inl RecursionError\<close>
  by code_simp

text \<open>
  An integer literal of more than 4300 digits, here of the digit \<open>1\<close> only: the decoder
  raises \<open>ValueError\<close>, and so does \<open>_extract_modified_files\<close>.
\<close>

lemma lex_skip_all: "length cs \<le> k \<Longrightarrow> lex k cs = []"
  by (induction cs arbitrary: k) auto

lemma one_is_digit: "is_digit (CHR ''1'')"
  by code_simp

lemma lex_number_ones:
  assumes "4300 < n"
  shows "lex_number (replicate n (CHR ''1'')) = Some (TBigInt, [])"
proof -
  from assms obtain m where n: "n = Suc m" by (cases n) auto
  have tw: "takeWhile is_digit (replicate m (CHR ''1'')) = replicate m (CHR ''1'')"
    by (simp add: one_is_digit)
  show ?thesis
    using assms
    by (simp add: n lex_number_def Let_def one_is_digit tw lex_frac_def lex_exp_def)
qed

lemma lex1_ones:
  assumes "4300 < n"
  shows "lex1 (replicate n (CHR ''1'')) = Some (Some TBigInt, [])"
proof -
  from assms obtain m where n: "n = Suc m" by (cases n) auto
  have "lex_number (CHR ''1'' # replicate m (CHR ''1'')) = Some (TBigInt, [])"
    using lex_number_ones[OF assms] by (simp add: n)
  then show ?thesis
    by (simp add: n lex1_def dquote_def)
qed

lemma lex_ones:
  assumes "4300 < n"
  shows "lex 0 (replicate n (CHR ''1'')) = [TBigInt]"
proof -
  from assms obtain m where n: "n = Suc m" by (cases n) auto
  have "lex1 (CHR ''1'' # replicate m (CHR ''1'')) = Some (Some TBigInt, [])"
    using lex1_ones[OF assms] by (simp add: n)
  then show ?thesis
    by (simp add: n lex_skip_all)
qed

lemma big_integer_example:
  "4300 < n \<Longrightarrow> json_loads room (replicate n (CHR ''1'')) = Inl ValueError"
  by (simp add: json_loads_def lex_ones)

lemma split_first_absent: "pat \<noteq> [] \<Longrightarrow> hd pat \<notin> set s \<Longrightarrow> split_first pat s = None"
proof (induction s)
  case Nil
  then show ?case by simp
next
  case (Cons c s)
  from Cons.prems obtain a p where pat: "pat = a # p" by (cases pat) auto
  with Cons.prems have "a \<noteq> c" by auto
  then have "\<not> prefix pat (c # s)" using pat by simp
  moreover have "split_first pat s = None" using Cons by simp
  ultimately show ?case by simp
qed

lemma reconcile_big_integer_example:
  assumes "4300 < n"
  shows "extract_modified_files (json_loads room) (replicate n (CHR ''1'')) = Inl ValueError"
proof -
  have "split_first ''```json'' (replicate n (CHR ''1'')) = None"
    by (rule split_first_absent) simp_all
  then have "selected_text (replicate n (CHR ''1'')) = replicate n (CHR ''1'')"
    by (simp add: selected_text_def re_search_json_def)
  with big_integer_example[OF assms, of room]
  have "json_loads room (selected_text (replicate n (CHR ''1''))) = Inl ValueError" by simp
  then show ?thesis
    by (rule extract_on_error[of "json_loads room" "replicate n (CHR ''1'')" ValueError]) simp
qed

text \<open>
  C4, as the code has it. The whole-text parse is attempted exactly when no fenced block
  is found. When the first tier fails and a fenced block was found (\<open>json.loads\<close> raises
  \<open>JSONDecodeError\<close> on its inner text), or the whole-text parse fails in that way too,
  the result is what the manual extraction finds; the whole text is not parsed after a
  fenced block. When no fenced block is found and the whole text decodes to an object,
  that object is returned.
\<close>

theorem second_tier_only_without_block:
  assumes "tier1_failed loads r"
  shows "((re_search_json r \<noteq> None \<or> tier2_failed loads r) \<longrightarrow>
            extract_modified_files loads r = Inr (dict_json (extract_files_manually r)))
       \<and> (re_search_json r = None \<longrightarrow>
            (\<forall>m. loads r = Inr (JObject m) \<longrightarrow> extract_modified_files loads r = Inr (JObject m)))"
proof (cases "re_search_json r")
  case None
  then have s: "selected_text r = r" by (simp add: selected_text_def)
  show ?thesis
    using None s extract_on_failure[of loads r] extract_on_object[of loads r]
    by (auto simp: tier2_failed_def)
next
  case (Some json_str)
  then have s: "selected_text r = json_str" by (simp add: selected_text_def)
  from assms Some have "loads json_str = Inl JSONDecodeError" by (simp add: tier1_failed_def)
  with s extract_on_failure[of loads r] Some show ?thesis by simp
qed

text \<open>
  C4 as stated fails on a response that is a JSON object as a whole and has a fence inside
  one of its strings: the first tier finds the fenced block with inner text \<open>x\<close>, which is
  no JSON document; the whole text would decode to a mapping with one entry, and the result
  is the empty mapping of the manual extraction.
\<close>

theorem second_tier_skipped_counterexample:
  \<open>tier1_failed (json_loads 100) ''{"a.tf": "```json x ```"}''
   \<and> json_loads 100 ''{"a.tf": "```json x ```"}'' = Inr (dict_json [(''a.tf'', ''```json x ```'')])
   \<and> extract_modified_files (json_loads 100) ''{"a.tf": "```json x ```"}'' = Inr (JObject [])\<close>
  by code_simp

theorem second_tier_only_without_block_witness:
  \<open>tier1_failed (json_loads 100) ''{"a.tf": "```json x ```"}''
   \<and> re_search_json ''{"a.tf": "```json x ```"}'' = Some ''x''
   \<and> extract_modified_files (json_loads 100) ''{"a.tf": "```json x ```"}''
        = Inr (dict_json (extract_files_manually ''{"a.tf": "```json x ```"}''))
   \<and> tier1_failed (json_loads 100) ''{"k": "v"}'' \<and> re_search_json ''{"k": "v"}'' = None
   \<and> extract_modified_files (json_loads 100) ''{"k": "v"}'' = Inr (dict_json [(''k'', ''v'')])\<close>
proof -
  have h1: \<open>tier1_failed (json_loads 100) ''{"a.tf": "```json x ```"}''\<close> by code_simp
  have b1: \<open>re_search_json ''{"a.tf": "```json x ```"}'' = Some ''x''\<close> by code_simp
  have h2: \<open>tier1_failed (json_loads 100) ''{"k": "v"}''\<close> by code_simp
  have b2: \<open>re_search_json ''{"k": "v"}'' = None\<close> by code_simp
  have j2: \<open>json_loads 100 ''{"k": "v"}'' = Inr (JObject [(ustr ''k'', JString (ustr ''v''))])\<close>
    by code_simp
  from second_tier_only_without_block[of "json_loads 100", OF h1] b1
  have c1: \<open>extract_modified_files (json_loads 100) ''{"a.tf": "```json x ```"}''
        = Inr (dict_json (extract_files_manually ''{"a.tf": "```json x ```"}''))\<close> by simp
  from second_tier_only_without_block[of "json_loads 100", OF h2] b2 j2
  have c2: \<open>extract_modified_files (json_loads 100) ''{"k": "v"}'' = Inr (dict_json [(''k'', ''v'')])\<close>
    by (simp add: dict_json_def)
  from h1 b1 c1 h2 b2 c2 show ?thesis by simp
qed

text \<open>
  Facts about the search for the fenced block, used for the round trip.
\<close>

lemma split_first_here: "pat \<noteq> [] \<Longrightarrow> split_first pat (pat @ rest) = Some ([], rest)"
  by (cases pat) auto

lemma split_first_skip:
  "hd pat \<notin> set pre \<Longrightarrow> pat \<noteq> [] \<Longrightarrow> split_first pat (pre @ pat @ rest) = Some (pre, rest)"
proof (induction pre)
  case Nil
  then show ?case by (simp add: split_first_here)
next
  case (Cons c pre)
  from Cons.prems obtain a p where pat: "pat = a # p" by (cases pat) auto
  with Cons.prems have "a \<noteq> c" by auto
  then have "\<not> prefix pat (c # pre @ pat @ rest)" using pat by simp
  moreover have "split_first pat (pre @ pat @ rest) = Some (pre, rest)"
    using Cons by simp
  ultimately show ?case by simp
qed

lemma split_first_leftmost:
  "\<not> contains pat (pre @ butlast pat) \<Longrightarrow> pat \<noteq> [] \<Longrightarrow>
     split_first pat (pre @ pat @ rest) = Some (pre, rest)"
proof (induction pre)
  case Nil
  then show ?case by (simp add: split_first_here)
next
  case (Cons c pre)
  from Cons.prems(1) have np: "\<not> prefix pat (c # pre @ butlast pat)"
    and nc: "\<not> contains pat (pre @ butlast pat)" by simp_all
  have "\<not> prefix pat (c # pre @ pat @ rest)"
  proof
    assume p: "prefix pat (c # pre @ pat @ rest)"
    have eq: "c # pre @ pat @ rest = (c # pre @ butlast pat) @ (last pat # rest)"
      using Cons.prems(2) by simp
    have len: "length pat \<le> length (c # pre @ butlast pat)" by simp
    have "prefix (c # pre @ butlast pat) (c # pre @ pat @ rest)"
      unfolding eq by (rule prefixI) simp
    from prefix_length_prefix[OF p this len] np show False by simp
  qed
  moreover have "split_first pat (pre @ pat @ rest) = Some (pre, rest)"
    using Cons.IH[OF nc Cons.prems(2)] .
  ultimately show ?case by simp
qed

lemma strip_padded:
  assumes "\<forall>c\<in>set ws1. is_space c" "\<forall>c\<in>set ws2. is_space c"
    and "inner \<noteq> []" "\<not> is_space (hd inner)" "\<not> is_space (last inner)"
  shows "strip (ws1 @ inner @ ws2) = inner"
proof -
  from assms(3) obtain x xs where i: "inner = x # xs" by (cases inner) auto
  have a: "dropWhile is_space (ws1 @ inner @ ws2) = inner @ ws2"
    using assms(1,4) i by (simp add: dropWhile_append3)
  from assms(3) obtain ys y where j: "inner = ys @ [y]" by (cases inner rule: rev_cases) auto
  have "dropWhile is_space (rev (inner @ ws2)) = rev inner"
    using assms(2,5) j by (simp add: dropWhile_append3)
  then show ?thesis by (simp add: strip_def a)
qed

lemma example_object_facts:
  "example_object \<noteq> []" "\<not> is_space (hd example_object)" "\<not> is_space (last example_object)"
  "CHR 0x60 \<notin> set example_object" "\<not> is_space (CHR 0x60)"
  by code_simp+

text \<open>
  C5, as the code has it. For every response in which the first fenced block has the
  object \<open>{"a.tf": "content-A", "b.tf": "content-B"}\<close> as its inner text (no opening fence
  begins in the text before the block), \<open>_extract_modified_files\<close> returns exactly the
  mapping of \<open>a.tf\<close> to \<open>content-A\<close> and of \<open>b.tf\<close> to \<open>content-B\<close>.
\<close>

theorem first_fenced_block_round_trip:
  assumes "\<not> contains ''```json'' (pre @ ''```jso'')"
    and "\<forall>c\<in>set ws1. is_space c" "\<forall>c\<in>set ws2. is_space c"
  shows "extract_modified_files (json_loads room) (fenced_text pre ws1 example_object ws2 post)
           = Inr example_mapping"
proof -
  let ?mid = "ws1 @ example_object @ ws2"
  have tick: "CHR 0x60 \<notin> set ?mid"
    using assms(2,3) example_object_facts(4,5) by auto
  have s1: "split_first ''```json'' (pre @ ''```json'' @ (?mid @ ''```'' @ post)) = Some (pre, ?mid @ ''```'' @ post)"
    by (rule split_first_leftmost) (use assms(1) in simp_all)
  have s2: "split_first ''```'' (?mid @ ''```'' @ post) = Some (?mid, post)"
    by (rule split_first_skip) (use tick in simp_all)
  have "re_search_json (fenced_text pre ws1 example_object ws2 post) = Some (strip ?mid)"
    using s1 s2 by (simp add: re_search_json_def fenced_text_def)
  also have "strip ?mid = example_object"
    by (rule strip_padded) (use assms(2,3) example_object_facts in simp_all)
  finally have "selected_text (fenced_text pre ws1 example_object ws2 post) = example_object"
    by (simp add: selected_text_def)
  then have "json_loads room (selected_text (fenced_text pre ws1 example_object ws2 post))
      = Inr (JObject [(ustr ''a.tf'', JString (ustr ''content-A'')), (ustr ''b.tf'', JString (ustr ''content-B''))])"
    using example_object_loads[of room] by (simp add: example_mapping_def dict_json_def)
  then have "extract_modified_files (json_loads room) (fenced_text pre ws1 example_object ws2 post)
      = Inr (JObject [(ustr ''a.tf'', JString (ustr ''content-A'')), (ustr ''b.tf'', JString (ustr ''content-B''))])"
    by (rule extract_on_object[of "json_loads room" "fenced_text pre ws1 example_object ws2 post"])
  then show ?thesis by (simp add: example_mapping_def dict_json_def)
qed

theorem first_fenced_block_round_trip_witness:
  \<open>\<not> contains ''```json'' (''Here are the files: '' @ ''```jso'')
   \<and> extract_modified_files (json_loads 100)
        (fenced_text ''Here are the files: '' [CHR 0x0A] example_object [CHR 0x0A] '' done'')
       = Inr example_mapping\<close>
proof -
  have h1: \<open>\<not> contains ''```json'' (''Here are the files: '' @ ''```jso'')\<close> by code_simp
  have h2: \<open>\<forall>c\<in>set [CHR 0x0A]. is_space c\<close> by code_simp
  from first_fenced_block_round_trip[OF h1 h2 h2] h1 show ?thesis by simp
qed

text \<open>
  C5 as stated fails when the block with the object is not the first one: the search takes
  the leftmost fenced block, here with inner text \<open>x\<close>; it is no JSON document, the manual
  extraction finds no section, and the result is the empty mapping.
\<close>

theorem later_fenced_block_counterexample:
  \<open>extract_modified_files (json_loads 100)
     (fenced_text ''```json x ``` '' '' '' example_object '' '' []) = Inr (JObject [])\<close>
  by code_simp

section \<open>Properties of the keyword extraction\<close>

text \<open>
  The keyword set in the words of the specification. The matched terms are the terms of the
  fixed vocabulary that occur in the lowercased prompt. A word token of a text is a maximal
  run of word characters: a non-empty piece of the text made of word characters with no
  word character next to it on either side.
\<close>

definition matched_terms :: "string \<Rightarrow> string set" where
  "matched_terms prompt = {t \<in> set terraform_keywords. sublist t (lower prompt)}"

definition is_token :: "string \<Rightarrow> string \<Rightarrow> bool" where
  "is_token w s = (w \<noteq> [] \<and> (\<forall>c\<in>set w. is_word c)
     \<and> (\<exists>pre post. s = pre @ w @ post \<and> (pre = [] \<or> \<not> is_word (last pre))
           \<and> (post = [] \<or> \<not> is_word (hd post))))"

definition keyword_set :: "string \<Rightarrow> string set" where
  "keyword_set prompt =
     (if matched_terms prompt \<noteq> {} then matched_terms prompt
      else {w. is_token w (lower prompt) \<and> 3 \<le> length w \<and> w \<notin> set stop_words})"

lemma contains_sublist: "contains pat s \<longleftrightarrow> sublist pat s"
  by (induction s) (auto simp: sublist_Cons_right)

lemma is_token_Nil: "\<not> is_token w []"
  by (auto simp: is_token_def)

lemma is_token_all_word:
  assumes "\<forall>c\<in>set a. is_word c" "a \<noteq> []"
  shows "is_token w a \<longleftrightarrow> w = a"
proof
  assume "w = a"
  with assms show "is_token w a" by (auto simp: is_token_def intro!: exI[of _ "[]"])
next
  assume "is_token w a"
  then obtain pre post where d: "a = pre @ w @ post" "pre = [] \<or> \<not> is_word (last pre)"
    "post = [] \<or> \<not> is_word (hd post)"
    by (auto simp: is_token_def)
  have "pre = []"
  proof (rule ccontr)
    assume "pre \<noteq> []"
    then have "last pre \<in> set a" using d(1) by simp
    with assms(1) d(2) \<open>pre \<noteq> []\<close> show False by auto
  qed
  moreover have "post = []"
  proof (rule ccontr)
    assume "post \<noteq> []"
    then have "hd post \<in> set a" using d(1) by simp
    with assms(1) d(3) \<open>post \<noteq> []\<close> show False by auto
  qed
  ultimately show "w = a" using d(1) by simp
qed

lemma is_token_left: 
  assumes "is_token w a" "\<not> is_word c"
  shows "is_token w (a @ c # b)"
proof -
  from assms(1) obtain pre post where d: "a = pre @ w @ post" "pre = [] \<or> \<not> is_word (last pre)"
    "post = [] \<or> \<not> is_word (hd post)" and w: "w \<noteq> []" "\<forall>c\<in>set w. is_word c"
    by (auto simp: is_token_def)
  have "a @ c # b = pre @ w @ (post @ c # b)" using d(1) by simp
  moreover have "\<not> is_word (hd (post @ c # b))" using d(3) assms(2) by (cases post) auto
  ultimately show ?thesis using w d(2) unfolding is_token_def by blast
qed

lemma is_token_right:
  assumes "is_token w b" "\<not> is_word c"
  shows "is_token w (a @ c # b)"
proof -
  from assms(1) obtain pre post where d: "b = pre @ w @ post" "pre = [] \<or> \<not> is_word (last pre)"
    "post = [] \<or> \<not> is_word (hd post)" and w: "w \<noteq> []" "\<forall>c\<in>set w. is_word c"
    by (auto simp: is_token_def)
  have "a @ c # b = (a @ c # pre) @ w @ post" using d(1) by simp
  moreover have "\<not> is_word (last (a @ c # pre))" using d(2) assms(2) by (cases pre rule: rev_cases) auto
  ultimately show ?thesis using w d(3) unfolding is_token_def by blast
qed

lemma is_token_split:
  assumes "is_token w (a @ c # b)" "\<not> is_word c"
  shows "is_token w a \<or> is_token w b"
proof -
  from assms(1) obtain pre post where d: "a @ c # b = pre @ w @ post" "pre = [] \<or> \<not> is_word (last pre)"
    "post = [] \<or> \<not> is_word (hd post)" and w: "w \<noteq> []" "\<forall>c\<in>set w. is_word c"
    by (auto simp: is_token_def)
  from w assms(2) have cw: "c \<notin> set w" by auto
  from d(1) consider us where "a = pre @ us" "us @ c # b = w @ post"
    | us where "a @ us = pre" "c # b = us @ w @ post"
    by (auto simp: append_eq_append_conv2)
  then show ?thesis
  proof cases
    case 1
    from 1(2) consider vs where "us = w @ vs" "vs @ c # b = post"
      | vs where "us @ vs = w" "c # b = vs @ post"
      by (auto simp: append_eq_append_conv2)
    then show ?thesis
    proof cases
      case 1
      have "a = pre @ w @ vs" using \<open>a = pre @ us\<close> 1(1) by simp
      moreover have "vs = [] \<or> \<not> is_word (hd vs)" using d(3) 1(2) by (cases vs) auto
      ultimately have "is_token w a" using w d(2) unfolding is_token_def by blast
      then show ?thesis by simp
    next
      case 2
      have "vs = []"
      proof (rule ccontr)
        assume "vs \<noteq> []"
        with 2(2) have "hd vs = c" by (cases vs) auto
        with \<open>vs \<noteq> []\<close> 2(1) have "c \<in> set w" by (metis hd_in_set in_set_conv_decomp Un_iff set_append)
        with cw show False by simp
      qed
      with 2 have "us = w" "post = c # b" by simp_all
      then have "a = pre @ w @ []" using \<open>a = pre @ us\<close> by simp
      then have "is_token w a" using w d(2) unfolding is_token_def by blast
      then show ?thesis by simp
    qed
  next
    case 2
    have "us \<noteq> []"
    proof
      assume "us = []"
      with 2(2) w(1) have "hd w = c" by (cases w) auto
      with w(1) cw show False by (metis hd_in_set)
    qed
    then obtain us' where us: "us = c # us'" using 2(2) by (cases us) auto
    with 2 have b: "b = us' @ w @ post" and p: "pre = a @ c # us'" by simp_all
    have "us' = [] \<or> \<not> is_word (last us')" using d(2) p by (cases us' rule: rev_cases) auto
    with b have "is_token w b" using w d(3) unfolding is_token_def by blast
    then show ?thesis by simp
  qed
qed

lemma set_word_runs:
  "\<forall>c\<in>set acc. is_word c \<Longrightarrow> set (word_runs acc s) = {w. is_token w (rev acc @ s)}"
proof (induction s arbitrary: acc)
  case Nil
  show ?case
  proof (cases "acc = []")
    case True
    then show ?thesis by (simp add: is_token_Nil)
  next
    case False
    then have "\<And>w. is_token w (rev acc) \<longleftrightarrow> w = rev acc"
      using Nil by (intro is_token_all_word) auto
    with False show ?thesis by auto
  qed
next
  case (Cons c cs)
  show ?case
  proof (cases "is_word c")
    case True
    with Cons.prems have "\<forall>x\<in>set (c # acc). is_word x" by simp
    from Cons.IH[OF this] True show ?thesis by simp
  next
    case False
    have rest: "set (word_runs [] cs) = {w. is_token w cs}"
      using Cons.IH[of "[]"] by simp
    have split: "\<And>w. is_token w (rev acc @ c # cs) \<longleftrightarrow> is_token w (rev acc) \<or> is_token w cs"
      using is_token_split[OF _ False] is_token_left[OF _ False] is_token_right[OF _ False] by blast
    show ?thesis
    proof (cases "acc = []")
      case True
      with False rest split show ?thesis by (auto simp: is_token_Nil)
    next
      case nonempty: False
      then have "\<And>w. is_token w (rev acc) \<longleftrightarrow> w = rev acc"
        using Cons.prems by (intro is_token_all_word) auto
      with False nonempty rest split show ?thesis by auto
    qed
  qed
qed

lemma set_findall_words: "set (findall_words s) = {w. is_token w s \<and> 3 \<le> length w}"
  using set_word_runs[of "[]" s] by (auto simp: findall_words_def)

text \<open>
  C9. The keywords depend on the prompt alone (\<open>_extract_keywords_from_prompt\<close> reads
  nothing else, so equal prompts give equal keywords). If terms of the vocabulary occur in
  the lowercased prompt, the keyword set is the set of those terms; otherwise it is the set
  of the word tokens of the lowercased prompt that have at least three characters and are
  not stop words.
\<close>

theorem keyword_extraction_spec:
  "set (extract_keywords_from_prompt prompt) = keyword_set prompt"
proof -
  have m: "set (filter (\<lambda>keyword. contains keyword (lower prompt)) terraform_keywords) = matched_terms prompt"
    by (auto simp: matched_terms_def contains_sublist)
  show ?thesis
  proof (cases "filter (\<lambda>keyword. contains keyword (lower prompt)) terraform_keywords = []")
    case True
    with m have "matched_terms prompt = {}" by simp
    with True show ?thesis
      by (auto simp: extract_keywords_from_prompt_def keyword_set_def Let_def set_findall_words)
  next
    case False
    with m have "matched_terms prompt \<noteq> {}" by (metis set_empty)
    with False m show ?thesis
      by (simp add: extract_keywords_from_prompt_def keyword_set_def Let_def)
  qed
qed

theorem keyword_extraction_spec_witness:
  \<open>set (extract_keywords_from_prompt ''Update the Foo_bar for my app'') = {''foo_bar'', ''app''}
   \<and> keyword_set ''Update the Foo_bar for my app'' = {''foo_bar'', ''app''}\<close>
proof -
  have e: \<open>extract_keywords_from_prompt ''Update the Foo_bar for my app'' = [''foo_bar'', ''app'']\<close>
    by code_simp
  from keyword_extraction_spec[of \<open>''Update the Foo_bar for my app''\<close>] e show ?thesis by auto
qed

lemma kw_examples:
  \<open>extract_keywords_from_prompt ''Add S3 encryption to the VPC'' = [''vpc'', ''encryption'', ''s3'']\<close>
  \<open>extract_keywords_from_prompt ''Update the Foo_bar for my app'' = [''foo_bar'', ''app'']\<close>
  by code_simp+

section \<open>Properties of the relevance selector\<close>

text \<open>
  The two shapes of the loops over the corpus in \<open>find_relevant_files\<close>: a file is added
  when a test \<open>G\<close> holds (first pass), or when it is not yet in the result and \<open>G\<close> holds
  (the other passes). \<open>nodes\<close> are the files a graph mentions, as keys or as dependencies.
  \<open>dep_inv\<close> is what holds of \<open>dependency_files\<close> throughout the second pass, and
  \<open>selected_before_closure\<close> is the running result when the second pass starts.
\<close>

definition guarded_step :: "('k \<Rightarrow> 'v \<Rightarrow> bool) \<Rightarrow> 'k \<times> 'v \<Rightarrow> ('k \<times> 'v) list \<Rightarrow> ('k \<times> 'v) list" where
  "guarded_step G = (\<lambda>(k, v) d. if \<not> has_key k d \<and> G k v then AList.update k v d else d)"

definition plain_step :: "('k \<Rightarrow> 'v \<Rightarrow> bool) \<Rightarrow> 'k \<times> 'v \<Rightarrow> ('k \<times> 'v) list \<Rightarrow> ('k \<times> 'v) list" where
  "plain_step G = (\<lambda>(k, v) d. if G k v then AList.update k v d else d)"

definition nodes :: "graph \<Rightarrow> string set" where
  "nodes g = set (map fst g) \<union> set (concat (map snd g))"

definition dep_inv :: "analyzer \<Rightarrow> corpus \<Rightarrow> corpus \<Rightarrow> bool" where
  "dep_inv a rf df = (set df \<subseteq> set (file_contents a) \<and> (\<forall>k. has_key k df \<longrightarrow> \<not> has_key k rf)
     \<and> distinct (map fst df))"

definition selected_before_closure :: "analyzer \<Rightarrow> string \<Rightarrow> corpus" where
  "selected_before_closure a prompt = vpc_pass a prompt (first_pass a (extract_keywords_from_prompt prompt))"

text \<open>
  The edges the graph builder records for one file, as lists: the corpus files under the
  directory of a relative module source, and the corpus files that declare a variable the
  file refers to.
\<close>

definition module_targets :: "corpus \<Rightarrow> string \<Rightarrow> string \<Rightarrow> string list" where
  "module_targets files file_path source =
     (if is_relative source then filter (prefix (source_dir file_path source)) (map fst files) else [])"

definition var_targets :: "corpus \<Rightarrow> string \<Rightarrow> string list" where
  "var_targets files var_name = map fst (filter (\<lambda>x. declares var_name (snd x)) files)"

definition edge_targets :: "corpus \<Rightarrow> string \<Rightarrow> string \<Rightarrow> string list" where
  "edge_targets files file_path content =
     concat (map (module_targets files file_path) (extract_module_sources content))
     @ concat (map (var_targets files) (extract_variable_references content))"

subsection \<open>Dictionaries\<close>

lemma update_new: "k \<notin> fst ` set d \<Longrightarrow> AList.update k v d = d @ [(k, v)]"
  by (induction d) auto

lemma update_entries: "set (AList.update k v d) \<subseteq> insert (k, v) (set d)"
  by (induction d) auto

lemma update_keeps_other: "(k', v') \<in> set d \<Longrightarrow> k' \<noteq> k \<Longrightarrow> (k', v') \<in> set (AList.update k v d)"
  by (induction d) auto

lemma has_key_update: "has_key k' (AList.update k v d) \<longleftrightarrow> k' = k \<or> has_key k' d"
  by (auto simp: has_key_def AList.dom_update)

lemma has_key_entry: "(k, v) \<in> set d \<Longrightarrow> has_key k d"
  by (force simp: has_key_def)

lemma has_key_mono: "set d \<subseteq> set d' \<Longrightarrow> has_key k d \<Longrightarrow> has_key k d'"
  by (auto simp: has_key_def)

lemma has_key_Cons: "has_key k ((k', v') # xs) \<longleftrightarrow> k = k' \<or> has_key k xs"
  by (auto simp: has_key_def)


lemma length_ge_keys:
  assumes "distinct ks" "set ks \<subseteq> fst ` set d"
  shows "length ks \<le> length d"
proof -
  have "length ks = card (set ks)" using assms(1) by (simp add: distinct_card)
  also have "\<dots> \<le> card (fst ` set d)" using assms(2) by (intro card_mono) simp_all
  also have "\<dots> \<le> card (set d)" by (rule card_image_le) simp
  also have "\<dots> \<le> length d" by (rule card_length)
  finally show ?thesis .
qed

lemma guarded_step_grows: "set d \<subseteq> set (guarded_step G x d)"
  by (cases x) (auto simp: guarded_step_def has_key_def update_new)

lemma guarded_step_entries: "set (guarded_step G x d) \<subseteq> insert x (set d)"
proof (cases x)
  case (Pair k v)
  show ?thesis using update_entries[of k v d] by (auto simp: Pair guarded_step_def)
qed

lemma guarded_step_distinct: "distinct (map fst d) \<Longrightarrow> distinct (map fst (guarded_step G x d))"
  by (cases x) (simp add: guarded_step_def AList.distinct_update)

lemma guarded_fold_grows: "set d \<subseteq> set (fold (guarded_step G) xs d)"
proof (induction xs arbitrary: d)
  case Nil
  show ?case by simp
next
  case (Cons x xs)
  have "set d \<subseteq> set (guarded_step G x d)" by (rule guarded_step_grows)
  also have "\<dots> \<subseteq> set (fold (guarded_step G) xs (guarded_step G x d))" by (rule Cons.IH)
  finally show ?case by simp
qed

lemma guarded_fold_entries: "set (fold (guarded_step G) xs d) \<subseteq> set d \<union> set xs"
proof (induction xs arbitrary: d)
  case Nil
  show ?case by simp
next
  case (Cons x xs)
  have "set (fold (guarded_step G) xs (guarded_step G x d)) \<subseteq> set (guarded_step G x d) \<union> set xs"
    by (rule Cons.IH)
  also have "\<dots> \<subseteq> insert x (set d) \<union> set xs" using guarded_step_entries[of G x d] by auto
  finally show ?case by auto
qed

lemma guarded_fold_distinct:
  "distinct (map fst d) \<Longrightarrow> distinct (map fst (fold (guarded_step G) xs d))"
  by (induction xs arbitrary: d) (simp_all add: guarded_step_distinct)

lemma guarded_fold_covers:
  "(k, v) \<in> set xs \<Longrightarrow> G k v \<Longrightarrow> has_key k (fold (guarded_step G) xs d)"
proof (induction xs arbitrary: d)
  case Nil
  then show ?case by simp
next
  case (Cons x xs)
  show ?case
  proof (cases "x = (k, v)")
    case True
    have h: "has_key k (guarded_step G x d)"
      using True Cons.prems(2) by (auto simp: guarded_step_def has_key_update)
    have "set (guarded_step G x d) \<subseteq> set (fold (guarded_step G) xs (guarded_step G x d))"
      by (rule guarded_fold_grows)
    from has_key_mono[OF this h] show ?thesis by simp
  next
    case False
    with Cons.prems have "(k, v) \<in> set xs" by simp
    from Cons.IH[OF this Cons.prems(2)] show ?thesis by simp
  qed
qed

lemma plain_step_entries: "set (plain_step G x d) \<subseteq> insert x (set d)"
proof (cases x)
  case (Pair k v)
  show ?thesis using update_entries[of k v d] by (auto simp: Pair plain_step_def)
qed

lemma plain_fold_entries: "set (fold (plain_step G) xs d) \<subseteq> set d \<union> set xs"
proof (induction xs arbitrary: d)
  case Nil
  show ?case by simp
next
  case (Cons x xs)
  have "set (fold (plain_step G) xs (plain_step G x d)) \<subseteq> set (plain_step G x d) \<union> set xs"
    by (rule Cons.IH)
  also have "\<dots> \<subseteq> insert x (set d) \<union> set xs" using plain_step_entries[of G x d] by auto
  finally show ?case by auto
qed

lemma plain_fold_distinct:
  "distinct (map fst d) \<Longrightarrow> distinct (map fst (fold (plain_step G) xs d))"
proof (induction xs arbitrary: d)
  case Nil
  then show ?case by simp
next
  case (Cons x xs)
  have "distinct (map fst (plain_step G x d))"
    using Cons.prems by (cases x) (simp add: plain_step_def AList.distinct_update)
  from Cons.IH[OF this] show ?case by simp
qed

lemma dict_update_entries: "set (dict_update d other) \<subseteq> set d \<union> set other"
  unfolding dict_update_def
proof (induction other arbitrary: d)
  case Nil
  show ?case by simp
next
  case (Cons x xs)
  obtain k v where x: "x = (k, v)" by (cases x)
  have "set (fold (\<lambda>(k, v). AList.update k v) xs (AList.update k v d)) \<subseteq> set (AList.update k v d) \<union> set xs"
    by (rule Cons.IH)
  also have "\<dots> \<subseteq> insert (k, v) (set d) \<union> set xs" using update_entries[of k v d] by auto
  finally show ?case using x by auto
qed

lemma dict_update_keeps:
  "(k, v) \<in> set d \<Longrightarrow> \<not> has_key k other \<Longrightarrow> (k, v) \<in> set (dict_update d other)"
  unfolding dict_update_def
proof (induction other arbitrary: d)
  case Nil
  then show ?case by simp
next
  case (Cons x xs)
  obtain k' v' where x: "x = (k', v')" by (cases x)
  from Cons.prems(2) x have ne: "k \<noteq> k'" and nk: "\<not> has_key k xs" by (simp_all add: has_key_Cons)
  have "(k, v) \<in> set (AList.update k' v' d)" using Cons.prems(1) ne by (simp add: update_keeps_other)
  from Cons.IH[OF this nk] show ?case using x by simp
qed


lemma dict_update_distinct: "distinct (map fst d) \<Longrightarrow> distinct (map fst (dict_update d other))"
  unfolding dict_update_def
proof (induction other arbitrary: d)
  case Nil
  then show ?case by simp
next
  case (Cons x xs)
  obtain k' v' where x: "x = (k', v')" by (cases x)
  have "distinct (map fst (AList.update k' v' d))" using Cons.prems by (simp add: AList.distinct_update)
  from Cons.IH[OF this] show ?case using x by simp
qed

subsection \<open>The traversal\<close>

lemma visit_deps_invariant:
  assumes "\<And>f v res v' tr. find_all_dependencies g frames f v = (res, v', tr) \<Longrightarrow>
             v' = v \<union> set tr \<and> distinct tr \<and> set tr \<inter> v = {}"
  shows "visit_deps g frames ds v = (res, v', tr) \<Longrightarrow>
           v' = v \<union> set tr \<and> distinct tr \<and> set tr \<inter> v = {}"
proof (induction ds arbitrary: v res v' tr)
  case Nil
  then show ?case by simp
next
  case (Cons d ds)
  obtain r1 v1 t1 where a: "find_all_dependencies g frames d v = (r1, v1, t1)"
    by (cases "find_all_dependencies g frames d v") auto
  from assms[OF a] have i1: "v1 = v \<union> set t1" "distinct t1" "set t1 \<inter> v = {}" by simp_all
  show ?case
  proof (cases r1)
    case (Inl e)
    with Cons.prems a have "v' = v1" "tr = t1" by simp_all
    with i1 show ?thesis by simp
  next
    case (Inr sub)
    obtain r2 v2 t2 where b: "visit_deps g frames ds v1 = (r2, v2, t2)"
      by (cases "visit_deps g frames ds v1") auto
    from Cons.IH[OF b] have i2: "v2 = v1 \<union> set t2" "distinct t2" "set t2 \<inter> v1 = {}" by simp_all
    from Cons.prems a b Inr have "v' = v2 \<and> tr = t1 @ t2" by (cases r2) simp_all
    with i1 i2 show ?thesis by auto
  qed
qed

lemma find_invariant:
  "find_all_dependencies g frames f v = (res, v', tr) \<Longrightarrow>
     v' = v \<union> set tr \<and> distinct tr \<and> set tr \<inter> v = {}"
proof (induction frames arbitrary: f v res v' tr)
  case 0
  then show ?case by simp
next
  case (Suc frames)
  show ?case
  proof (cases "f \<in> v")
    case True
    with Suc.prems show ?thesis by simp
  next
    case False
    obtain r2 v2 t2
      where b: "visit_deps g frames (case map_of g f of None \<Rightarrow> [] | Some ds \<Rightarrow> ds) (insert f v) = (r2, v2, t2)"
      by (cases "visit_deps g frames (case map_of g f of None \<Rightarrow> [] | Some ds \<Rightarrow> ds) (insert f v)") auto
    from visit_deps_invariant[OF Suc.IH b]
    have i: "v2 = insert f v \<union> set t2" "distinct t2" "set t2 \<inter> insert f v = {}" by simp_all
    from Suc.prems False b have "v' = v2 \<and> tr = f # t2" by (cases r2) simp_all
    with i False show ?thesis by auto
  qed
qed

lemma visit_deps_error:
  assumes "\<forall>f v e v' tr. find_all_dependencies g frames f v = (Inl e, v', tr) \<longrightarrow> e = RecursionError"
  shows "visit_deps g frames ds v = (Inl e, v', tr) \<Longrightarrow> e = RecursionError"
proof (induction ds arbitrary: v e v' tr)
  case Nil
  then show ?case by simp
next
  case (Cons d ds)
  obtain r1 v1 t1 where a: "find_all_dependencies g frames d v = (r1, v1, t1)"
    by (cases "find_all_dependencies g frames d v") auto
  show ?case
  proof (cases r1)
    case (Inl e1)
    with Cons.prems a have "e = e1" by simp
    moreover from assms a Inl have "e1 = RecursionError" by blast
    ultimately show ?thesis by simp
  next
    case (Inr sub)
    obtain r2 v2 t2 where b: "visit_deps g frames ds v1 = (r2, v2, t2)"
      by (cases "visit_deps g frames ds v1") auto
    from Cons.prems a b Inr have "r2 = Inl e" by (cases r2) simp_all
    with Cons.IH[of v1 e v2 t2] b show ?thesis by simp
  qed
qed

lemma find_error:
  "find_all_dependencies g frames f v = (Inl e, v', tr) \<Longrightarrow> e = RecursionError"
proof (induction frames arbitrary: f v e v' tr)
  case 0
  then show ?case by simp
next
  case (Suc frames)
  show ?case
  proof (cases "f \<in> v")
    case True
    with Suc.prems show ?thesis by simp
  next
    case False
    obtain r2 v2 t2
      where b: "visit_deps g frames (case map_of g f of None \<Rightarrow> [] | Some ds \<Rightarrow> ds) (insert f v) = (r2, v2, t2)"
      by (cases "visit_deps g frames (case map_of g f of None \<Rightarrow> [] | Some ds \<Rightarrow> ds) (insert f v)") auto
    from Suc.prems False b have "r2 = Inl e" by (cases r2) simp_all
    with b have "visit_deps g frames (case map_of g f of None \<Rightarrow> [] | Some ds \<Rightarrow> ds) (insert f v) = (Inl e, v2, t2)"
      by simp
    moreover have "\<forall>f v e v' tr. find_all_dependencies g frames f v = (Inl e, v', tr) \<longrightarrow> e = RecursionError"
      using Suc.IH by blast
    ultimately show ?thesis using visit_deps_error by blast
  qed
qed

text \<open>
  The calls nest no deeper than the graph has files: with room for more frames than that
  the traversal returns a list.
\<close>

lemma visit_deps_returns:
  assumes fin: "finite N"
    and hyp: "\<And>f v. f \<in> N \<Longrightarrow> card (N - v) < frames \<Longrightarrow>
             \<exists>ds v' tr. find_all_dependencies g frames f v = (Inr ds, v', tr)"
  shows "set ds \<subseteq> N \<Longrightarrow> card (N - v) < frames \<Longrightarrow>
           \<exists>r v' tr. visit_deps g frames ds v = (Inr r, v', tr)"
proof (induction ds arbitrary: v)
  case Nil
  show ?case by simp
next
  case (Cons d ds)
  from Cons.prems have d: "d \<in> N" by simp
  from hyp[OF d Cons.prems(2)]
  obtain sub v1 t1 where a: "find_all_dependencies g frames d v = (Inr sub, v1, t1)" by blast
  from find_invariant[OF a] have "v \<subseteq> v1" by auto
  then have "N - v1 \<subseteq> N - v" by auto
  then have "card (N - v1) \<le> card (N - v)" using fin by (intro card_mono) simp_all
  with Cons.prems(2) have c: "card (N - v1) < frames" by simp
  from Cons.prems(1) have "set ds \<subseteq> N" by simp
  from Cons.IH[OF this c]
  obtain rest v2 t2 where b: "visit_deps g frames ds v1 = (Inr rest, v2, t2)" by blast
  from a b show ?case by simp
qed

lemma nodes_deps: "map_of g f = Some ds \<Longrightarrow> set ds \<subseteq> nodes g"
proof -
  assume "map_of g f = Some ds"
  then have "(f, ds) \<in> set g" by (rule map_of_SomeD)
  then have "ds \<in> set (map snd g)" by force
  then show ?thesis by (auto simp: nodes_def)
qed

lemma find_returns_aux:
  assumes fin: "finite N" and sub: "nodes g \<subseteq> N"
  shows "f \<in> N \<Longrightarrow> card (N - v) < frames \<Longrightarrow>
           \<exists>ds v' tr. find_all_dependencies g frames f v = (Inr ds, v', tr)"
proof (induction frames arbitrary: f v)
  case 0
  then show ?case by simp
next
  case (Suc frames)
  show ?case
  proof (cases "f \<in> v")
    case True
    then show ?thesis by simp
  next
    case False
    let ?ds = "case map_of g f of None \<Rightarrow> [] | Some ds \<Rightarrow> ds"
    have dsN: "set ?ds \<subseteq> N"
    proof (cases "map_of g f")
      case None
      then show ?thesis by simp
    next
      case (Some ds)
      with nodes_deps[OF Some] sub show ?thesis by auto
    qed
    have "N - insert f v \<subset> N - v" using Suc.prems(1) False by auto
    then have "card (N - insert f v) < card (N - v)" using fin by (intro psubset_card_mono) simp_all
    with Suc.prems(2) have c: "card (N - insert f v) < frames" by simp
    from visit_deps_returns[OF fin Suc.IH dsN c]
    obtain r v2 t2 where b: "visit_deps g frames ?ds (insert f v) = (Inr r, v2, t2)" by blast
    with False show ?thesis by simp
  qed
qed

lemma finite_nodes: "finite (nodes g)"
  by (simp add: nodes_def)

lemma find_returns:
  assumes "card (nodes g) + 1 < frames"
  shows "\<exists>ds v' tr. find_all_dependencies g frames f {} = (Inr ds, v', tr)"
proof -
  have "card (insert f (nodes g) - {}) \<le> card (nodes g) + 1"
    using finite_nodes[of g] by (simp add: card_insert_if)
  with assms have c: "card (insert f (nodes g) - {}) < frames" by simp
  show ?thesis
    by (rule find_returns_aux[OF _ _ _ c]) (simp_all add: finite_nodes subset_insertI)
qed



text \<open>
  C3. For every dependency graph, with cycles or without, \<open>_find_all_dependencies\<close>
  comes to an end, and it expands no file twice: the files it expanded are distinct, and
  they are the files of \<open>visited\<close>. It ends with a list unless the recursion limit is hit,
  which does not happen when there is room for more nested calls than the graph has files
  (and one for the start).
\<close>

theorem traversal_expands_once:
  "case find_all_dependencies g frames file_path {} of
     (result, visited, expanded) \<Rightarrow>
        distinct expanded \<and> set expanded = visited
        \<and> (card (nodes g) + 1 < frames \<longrightarrow> \<not> isl result)"
proof -
  obtain res v' tr where a: "find_all_dependencies g frames file_path {} = (res, v', tr)"
    by (cases "find_all_dependencies g frames file_path {}") auto
  from find_invariant[OF a] have i: "distinct tr" "set tr = v'" by simp_all
  have "\<not> isl res" if "card (nodes g) + 1 < frames"
    using find_returns[OF that, of file_path] a by auto
  with i show ?thesis by (simp add: a)
qed

theorem traversal_expands_once_witness:
  "card (nodes [(''a.tf'', [''b.tf'', ''c.tf'']), (''b.tf'', [''a.tf'']), (''c.tf'', [''c.tf'', ''b.tf''])]) + 1 < (5::nat)
   \<and> snd (snd (find_all_dependencies
        [(''a.tf'', [''b.tf'', ''c.tf'']), (''b.tf'', [''a.tf'']), (''c.tf'', [''c.tf'', ''b.tf''])] 5 ''a.tf'' {}))
       = [''a.tf'', ''b.tf'', ''c.tf'']
   \<and> \<not> isl (fst (find_all_dependencies
        [(''a.tf'', [''b.tf'', ''c.tf'']), (''b.tf'', [''a.tf'']), (''c.tf'', [''c.tf'', ''b.tf''])] 5 ''a.tf'' {}))"
proof -
  let ?g = "[(''a.tf'', [''b.tf'', ''c.tf'']), (''b.tf'', [''a.tf'']), (''c.tf'', [''c.tf'', ''b.tf''])]"
  have h: "card (nodes ?g) + 1 < (5::nat)" by code_simp
  have e: "snd (snd (find_all_dependencies ?g 5 ''a.tf'' {})) = [''a.tf'', ''b.tf'', ''c.tf'']"
    by code_simp
  obtain res v tr where a: "find_all_dependencies ?g 5 ''a.tf'' {} = (res, v, tr)"
    by (cases "find_all_dependencies ?g 5 ''a.tf'' {}") auto
  from traversal_expands_once[where g = "?g" and frames = 5 and file_path = "''a.tf''"] a h
  have "\<not> isl res" by simp
  with a h e show ?thesis by simp
qed

text \<open>
  With too little room the traversal ends with \<open>RecursionError\<close>: a chain of three files
  and room for two nested calls.
\<close>

lemma traversal_recursion_example:
  "fst (find_all_dependencies [(''a.tf'', [''b.tf'']), (''b.tf'', [''c.tf'']), (''c.tf'', [])] 2 ''a.tf'' {})
     = Inl RecursionError"
  by code_simp

subsection \<open>The passes\<close>

lemma first_pass_eq: "first_pass a kw = fold (plain_step (keyword_hit kw)) (file_contents a) []"
  by (simp add: first_pass_def plain_step_def)

lemma vpc_pass_eq:
  "vpc_pass a prompt rf =
     (if list_ex (\<lambda>vpc_term. contains vpc_term (lower prompt)) [''vpc'', ''network'']
      then fold (guarded_step (keyword_hit vpc_keywords)) (file_contents a) rf else rf)"
  by (simp add: vpc_pass_def guarded_step_def)

lemma important_pass_eq:
  "important_pass a rf =
     (if length rf < 3 then fold (guarded_step (\<lambda>file_path content. is_important file_path)) (file_contents a) rf
      else rf)"
  by (simp add: important_pass_def guarded_step_def)

lemma add_dependency_inv: "dep_inv a rf df \<Longrightarrow> dep_inv a rf (add_dependency a rf dep df)"
proof -
  assume inv: "dep_inv a rf df"
  show ?thesis
  proof (cases "\<not> has_key dep rf \<and> map_of (file_contents a) dep \<noteq> None")
    case False
    then show ?thesis using inv by (auto simp: add_dependency_def split: option.splits)
  next
    case True
    then obtain c where c: "map_of (file_contents a) dep = Some c" by auto
    then have mem: "(dep, c) \<in> set (file_contents a)" by (rule map_of_SomeD)
    have eq: "add_dependency a rf dep df = AList.update dep c df" using True c by (simp add: add_dependency_def)
    have "set (AList.update dep c df) \<subseteq> set (file_contents a)"
      using update_entries[of dep c df] inv mem by (auto simp: dep_inv_def)
    moreover have "\<forall>k. has_key k (AList.update dep c df) \<longrightarrow> \<not> has_key k rf"
      using inv True by (auto simp: dep_inv_def has_key_update)
    moreover have "distinct (map fst (AList.update dep c df))"
      using inv by (simp add: dep_inv_def AList.distinct_update)
    ultimately show ?thesis by (simp add: eq dep_inv_def)
  qed
qed

lemma add_dependency_fold_inv: "dep_inv a rf df \<Longrightarrow> dep_inv a rf (fold (add_dependency a rf) deps df)"
  by (induction deps arbitrary: df) (simp_all add: add_dependency_inv)




lemma collect_step:
  "collect_dependencies frames a rf (fp # fps) df = Inr df' \<Longrightarrow>
     \<exists>deps. fst (find_all_dependencies (dependency_graph a) frames fp {}) = Inr deps
        \<and> collect_dependencies frames a rf fps (fold (add_dependency a rf) deps df) = Inr df'"
  by (cases "fst (find_all_dependencies (dependency_graph a) frames fp {})") simp_all


lemma collect_inv:
  "dep_inv a rf df \<Longrightarrow> collect_dependencies frames a rf fps df = Inr df' \<Longrightarrow> dep_inv a rf df'"
proof (induction fps arbitrary: df)
  case Nil
  then show ?case by simp
next
  case (Cons fp fps)
  from collect_step[OF Cons.prems(2)] obtain deps
    where r: "collect_dependencies frames a rf fps (fold (add_dependency a rf) deps df) = Inr df'" by blast
  from Cons.IH[OF add_dependency_fold_inv[OF Cons.prems(1)] r] show ?case .
qed



lemma collect_error:
  "collect_dependencies frames a rf fps df = Inl e \<Longrightarrow> e = RecursionError"
proof (induction fps arbitrary: df)
  case Nil
  then show ?case by simp
next
  case (Cons fp fps)
  obtain res v' tr where f: "find_all_dependencies (dependency_graph a) frames fp {} = (res, v', tr)"
    by (cases "find_all_dependencies (dependency_graph a) frames fp {}") auto
  show ?case
  proof (cases res)
    case (Inl e1)
    with Cons.prems f have "e = e1" by simp
    with find_error[of "dependency_graph a" frames fp "{}" e1 v' tr] f Inl show ?thesis by simp
  next
    case (Inr deps)
    with Cons.prems f
    have "collect_dependencies frames a rf fps (fold (add_dependency a rf) deps df) = Inl e" by simp
    then show ?thesis by (rule Cons.IH)
  qed
qed

lemma collect_returns:
  assumes "card (nodes (dependency_graph a)) + 1 < frames"
  shows "\<exists>df'. collect_dependencies frames a rf fps df = Inr df'"
proof (induction fps arbitrary: df)
  case Nil
  show ?case by simp
next
  case (Cons fp fps)
  from find_returns[OF assms, of fp]
  obtain deps where "fst (find_all_dependencies (dependency_graph a) frames fp {}) = Inr deps" by force
  with Cons.IH[of "fold (add_dependency a rf) deps df"] show ?case by simp
qed

lemma dep_inv_empty: "dep_inv a rf []"
  by (simp add: dep_inv_def has_key_def)

lemma second_pass_result:
  "second_pass frames a rf = Inr r3 \<Longrightarrow>
     \<exists>df. collect_dependencies frames a rf (map fst rf) [] = Inr df \<and> r3 = dict_update rf df \<and> dep_inv a rf df"
proof -
  assume s: "second_pass frames a rf = Inr r3"
  then obtain df where c: "collect_dependencies frames a rf (map fst rf) [] = Inr df"
    by (cases "collect_dependencies frames a rf (map fst rf) []") (simp_all add: second_pass_def)
  with s have "r3 = dict_update rf df" by (simp add: second_pass_def)
  moreover from collect_inv[OF dep_inv_empty c] have "dep_inv a rf df" .
  ultimately show ?thesis using c by simp
qed

lemma second_pass_error: "second_pass frames a rf = Inl e \<Longrightarrow> e = RecursionError"
proof -
  assume s: "second_pass frames a rf = Inl e"
  then have "collect_dependencies frames a rf (map fst rf) [] = Inl e"
    by (cases "collect_dependencies frames a rf (map fst rf) []") (simp_all add: second_pass_def)
  then show ?thesis by (rule collect_error)
qed

lemma second_pass_returns:
  "card (nodes (dependency_graph a)) + 1 < frames \<Longrightarrow> \<exists>r3. second_pass frames a rf = Inr r3"
  using collect_returns[of a frames rf "map fst rf" "[]"] by (auto simp: second_pass_def)

lemma second_pass_grows: "second_pass frames a rf = Inr r3 \<Longrightarrow> set rf \<subseteq> set r3"
proof
  fix e assume s: "second_pass frames a rf = Inr r3" and e: "e \<in> set rf"
  obtain k v where kv: "e = (k, v)" by (cases e)
  from second_pass_result[OF s] obtain df where r: "r3 = dict_update rf df" and inv: "dep_inv a rf df"
    by blast
  have "has_key k rf" using e kv by (auto intro: has_key_entry)
  then have "\<not> has_key k df" using inv by (auto simp: dep_inv_def)
  then show "e \<in> set r3" using e kv r by (simp add: dict_update_keeps)
qed

lemma second_pass_entries:
  "second_pass frames a rf = Inr r3 \<Longrightarrow> set r3 \<subseteq> set rf \<union> set (file_contents a)"
proof -
  assume s: "second_pass frames a rf = Inr r3"
  from second_pass_result[OF s] obtain df where r: "r3 = dict_update rf df" and inv: "dep_inv a rf df"
    by blast
  show ?thesis using dict_update_entries[of rf df] inv r by (auto simp: dep_inv_def)
qed

lemma second_pass_distinct:
  "second_pass frames a rf = Inr r3 \<Longrightarrow> distinct (map fst rf) \<Longrightarrow> distinct (map fst r3)"
proof -
  assume s: "second_pass frames a rf = Inr r3" and d: "distinct (map fst rf)"
  from second_pass_result[OF s] obtain df where r: "r3 = dict_update rf df" by blast
  with d show ?thesis by (simp add: dict_update_distinct)
qed


lemma first_pass_entries: "set (first_pass a kw) \<subseteq> set (file_contents a)"
  using plain_fold_entries[of "keyword_hit kw" "file_contents a" "[]"] by (simp add: first_pass_eq)

lemma first_pass_distinct: "distinct (map fst (first_pass a kw))"
  by (simp add: first_pass_eq plain_fold_distinct)

lemma vpc_pass_grows: "set rf \<subseteq> set (vpc_pass a prompt rf)"
  by (simp add: vpc_pass_eq guarded_fold_grows)

lemma vpc_pass_entries: "set (vpc_pass a prompt rf) \<subseteq> set rf \<union> set (file_contents a)"
  using guarded_fold_entries[of "keyword_hit vpc_keywords" "file_contents a" rf] by (auto simp: vpc_pass_eq)

lemma vpc_pass_distinct: "distinct (map fst rf) \<Longrightarrow> distinct (map fst (vpc_pass a prompt rf))"
  by (simp add: vpc_pass_eq guarded_fold_distinct)

lemma important_pass_grows: "set rf \<subseteq> set (important_pass a rf)"
  by (simp add: important_pass_eq guarded_fold_grows)

lemma important_pass_entries: "set (important_pass a rf) \<subseteq> set rf \<union> set (file_contents a)"
  using guarded_fold_entries[of "\<lambda>file_path content. is_important file_path" "file_contents a" rf]
  by (auto simp: important_pass_eq)

lemma important_pass_distinct: "distinct (map fst rf) \<Longrightarrow> distinct (map fst (important_pass a rf))"
  by (simp add: important_pass_eq guarded_fold_distinct)

lemma important_pass_covers:
  assumes "length rf < 3" "(k, v) \<in> set (file_contents a)" "is_important k"
  shows "has_key k (important_pass a rf)"
  using assms guarded_fold_covers[of k v "file_contents a" "\<lambda>file_path content. is_important file_path" rf]
  by (simp add: important_pass_eq)

lemma find_relevant_files_result:
  "find_relevant_files frames a prompt = Inr r4 \<Longrightarrow>
     \<exists>r3. second_pass frames a (selected_before_closure a prompt) = Inr r3 \<and> r4 = important_pass a r3"
  by (cases "second_pass frames a (selected_before_closure a prompt)")
     (simp_all add: find_relevant_files_def selected_before_closure_def)

lemma find_relevant_files_error:
  "find_relevant_files frames a prompt = Inl e \<Longrightarrow> e = RecursionError"
proof -
  assume f: "find_relevant_files frames a prompt = Inl e"
  then have "second_pass frames a (selected_before_closure a prompt) = Inl e"
    by (cases "second_pass frames a (selected_before_closure a prompt)")
       (simp_all add: find_relevant_files_def selected_before_closure_def)
  then show ?thesis by (rule second_pass_error)
qed

lemma find_relevant_files_returns:
  "card (nodes (dependency_graph a)) + 1 < frames \<Longrightarrow> \<not> isl (find_relevant_files frames a prompt)"
  using second_pass_returns[of a frames "selected_before_closure a prompt"]
  by (auto simp: find_relevant_files_def selected_before_closure_def)

lemma load_files_distinct:
  "distinct (map fst (file_contents a)) \<Longrightarrow> distinct (map fst (file_contents (load_files fs a)))"
  by (induction fs a rule: load_files.induct) (simp_all add: AList.distinct_update)

lemma file_contents_build: "file_contents (build_dependency_graph a) = file_contents a"
  by (simp add: build_dependency_graph_def)

lemma analyzer_distinct: "distinct (map fst (file_contents (TerraformAnalyzer fs)))"
  by (simp add: TerraformAnalyzer_def load_terraform_files_def file_contents_build load_files_distinct)

text \<open>
  C10. For every corpus and prompt, when \<open>find_relevant_files\<close> returns, every entry of
  its result is an entry of the corpus with the content the corpus has for it, no path
  occurs twice, and the running result only grows through the phases: keyword match,
  VPC augmentation, dependency closure, important-file fallback. The only way not to
  return is the \<open>RecursionError\<close> of the traversal, which does not arise when there is
  room for more nested calls than the graph has files.
\<close>

theorem selection_grows_within_corpus:
  fixes a :: analyzer and prompt :: string and frames :: nat
  defines "r1 \<equiv> first_pass a (extract_keywords_from_prompt prompt)"
  defines "r2 \<equiv> vpc_pass a prompt r1"
  shows "(case second_pass frames a r2 of
            Inl e \<Rightarrow> find_relevant_files frames a prompt = Inl RecursionError
          | Inr r3 \<Rightarrow>
              find_relevant_files frames a prompt = Inr (important_pass a r3)
              \<and> set r1 \<subseteq> set r2 \<and> set r2 \<subseteq> set r3 \<and> set r3 \<subseteq> set (important_pass a r3)
              \<and> set (important_pass a r3) \<subseteq> set (file_contents a)
              \<and> distinct (map fst (important_pass a r3)))
       \<and> (card (nodes (dependency_graph a)) + 1 < frames \<longrightarrow>
            \<not> isl (find_relevant_files frames a prompt))"
proof (cases "second_pass frames a r2")
  case (Inl e)
  then have "e = RecursionError" by (rule second_pass_error)
  with Inl show ?thesis
    using find_relevant_files_returns[of a frames prompt]
    by (auto simp: find_relevant_files_def r1_def r2_def)
next
  case (Inr r3)
  have e1: "set r1 \<subseteq> set (file_contents a)" unfolding r1_def by (rule first_pass_entries)
  have e2: "set r2 \<subseteq> set (file_contents a)" using vpc_pass_entries[of a prompt r1] e1 by (auto simp: r2_def)
  have e3: "set r3 \<subseteq> set (file_contents a)" using second_pass_entries[OF Inr] e2 by auto
  have e4: "set (important_pass a r3) \<subseteq> set (file_contents a)"
    using important_pass_entries[of a r3] e3 by auto
  have "distinct (map fst r2)"
    unfolding r2_def r1_def by (intro vpc_pass_distinct first_pass_distinct)
  then have "distinct (map fst r3)" by (rule second_pass_distinct[OF Inr])
  then have d4: "distinct (map fst (important_pass a r3))" by (rule important_pass_distinct)
  have g12: "set r1 \<subseteq> set r2" unfolding r2_def by (rule vpc_pass_grows)
  have g23: "set r2 \<subseteq> set r3" using Inr by (rule second_pass_grows)
  have g34: "set r3 \<subseteq> set (important_pass a r3)" by (rule important_pass_grows)
  have f: "find_relevant_files frames a prompt = Inr (important_pass a r3)"
    using Inr by (simp add: find_relevant_files_def r1_def r2_def)
  show ?thesis using f g12 g23 g34 e4 d4 Inr by simp
qed

theorem selection_grows_within_corpus_witness:
  \<open>card (nodes (dependency_graph
       (TerraformAnalyzer [(''app/main.tf'', Some ''module "net" { source = "../network" } kms''),
                           (''network/x.tf'', Some ''x'')]))) + 1 < (5::nat)
   \<and> find_relevant_files 5
       (TerraformAnalyzer [(''app/main.tf'', Some ''module "net" { source = "../network" } kms''),
                           (''network/x.tf'', Some ''x'')]) ''add kms''
      = Inr [(''app/main.tf'', ''module "net" { source = "../network" } kms''), (''network/x.tf'', ''x'')]\<close>
proof -
  let ?a = \<open>TerraformAnalyzer [(''app/main.tf'', Some ''module "net" { source = "../network" } kms''),
                           (''network/x.tf'', Some ''x'')]\<close>
  have h: \<open>card (nodes (dependency_graph ?a)) + 1 < (5::nat)\<close> by code_simp
  have s: \<open>second_pass 5 ?a (vpc_pass ?a ''add kms'' (first_pass ?a (extract_keywords_from_prompt ''add kms'')))
      = Inr [(''app/main.tf'', ''module "net" { source = "../network" } kms''), (''network/x.tf'', ''x'')]\<close>
    by code_simp
  have i: \<open>important_pass ?a [(''app/main.tf'', ''module "net" { source = "../network" } kms''), (''network/x.tf'', ''x'')]
      = [(''app/main.tf'', ''module "net" { source = "../network" } kms''), (''network/x.tf'', ''x'')]\<close>
    by code_simp
  from selection_grows_within_corpus[where frames = 5 and a = "?a" and prompt = "''add kms''"] h s i
  show ?thesis by simp
qed

text \<open>
  C1, as the code has it. When \<open>find_relevant_files\<close> returns, its result has at least
  three entries or holds every file of the corpus whose path ends in \<open>main.tf\<close>,
  \<open>variables.tf\<close> or \<open>outputs.tf\<close>: at least \<open>min(3, number of those files)\<close> entries. The
  only way not to return is the \<open>RecursionError\<close> of the traversal.
\<close>

theorem minimum_coverage:
  fixes fs :: "(string \<times> string option) list" and prompt :: string and frames :: nat
  defines "a \<equiv> TerraformAnalyzer fs"
  shows "(case find_relevant_files frames a prompt of
            Inl e \<Rightarrow> e = RecursionError
          | Inr relevant_files \<Rightarrow>
              min 3 (length (filter is_important (map fst (file_contents a)))) \<le> length relevant_files)
       \<and> (card (nodes (dependency_graph a)) + 1 < frames \<longrightarrow>
            \<not> isl (find_relevant_files frames a prompt))"
proof (cases "find_relevant_files frames a prompt")
  case (Inl e)
  then have "e = RecursionError" by (rule find_relevant_files_error)
  with Inl show ?thesis using find_relevant_files_returns[of a frames prompt] by auto
next
  case (Inr r4)
  from find_relevant_files_result[OF Inr] obtain r3 where fr: "r4 = important_pass a r3" by blast
  have "min 3 (length (filter is_important (map fst (file_contents a)))) \<le> length r4"
  proof (cases "length r3 < 3")
    case False
    then have "important_pass a r3 = r3" by (simp add: important_pass_def)
    with False fr show ?thesis by simp
  next
    case True
    have d: "distinct (filter is_important (map fst (file_contents a)))"
      unfolding a_def using analyzer_distinct by (rule distinct_filter)
    have "set (filter is_important (map fst (file_contents a))) \<subseteq> fst ` set (important_pass a r3)"
    proof
      fix k assume "k \<in> set (filter is_important (map fst (file_contents a)))"
      then obtain v where "(k, v) \<in> set (file_contents a)" "is_important k" by auto
      from important_pass_covers[OF True this] show "k \<in> fst ` set (important_pass a r3)"
        by (simp add: has_key_def)
    qed
    from length_ge_keys[OF d this] show ?thesis by (simp add: fr)
  qed
  with Inr show ?thesis by simp
qed

theorem minimum_coverage_witness:
  \<open>card (nodes (dependency_graph
       (TerraformAnalyzer [(''main.tf'', Some ''resource "aws_instance" "x" {}''),
                           (''variables.tf'', Some ''variable "region" {}'')]))) + 1 < (5::nat)
   \<and> map fst (file_contents
       (TerraformAnalyzer [(''main.tf'', Some ''resource "aws_instance" "x" {}''),
                           (''variables.tf'', Some ''variable "region" {}'')])) = [''main.tf'', ''variables.tf'']
   \<and> map_sum id (map fst) (find_relevant_files 5
       (TerraformAnalyzer [(''main.tf'', Some ''resource "aws_instance" "x" {}''),
                           (''variables.tf'', Some ''variable "region" {}'')]) ''add encryption'')
      = Inr [''main.tf'', ''variables.tf'']\<close>
proof -
  let ?fs = \<open>[(''main.tf'', Some ''resource "aws_instance" "x" {}''),
              (''variables.tf'', Some ''variable "region" {}'')]\<close>
  let ?a = "TerraformAnalyzer ?fs"
  have h: \<open>card (nodes (dependency_graph ?a)) + 1 < (5::nat)\<close> by code_simp
  have k: \<open>map fst (file_contents ?a) = [''main.tf'', ''variables.tf'']\<close> by code_simp
  have e: \<open>map_sum id (map fst) (find_relevant_files 5 ?a ''add encryption'') = Inr [''main.tf'', ''variables.tf'']\<close>
    by code_simp
  from minimum_coverage[where frames = 5 and fs = "?fs" and prompt = "''add encryption''"] h k e
  show ?thesis by simp
qed

text \<open>
  C1 as stated fails on a corpus of the one file \<open>foo.tf\<close> with the prompt
  \<open>add encryption\<close>: the keyword matches nothing, there is nothing to close over, the path
  does not end in one of the three names, and the result is empty.
\<close>

theorem empty_selection_counterexample:
  \<open>file_contents (TerraformAnalyzer [(''foo.tf'', Some ''x'')]) = [(''foo.tf'', ''x'')]
   \<and> find_relevant_files 5 (TerraformAnalyzer [(''foo.tf'', Some ''x'')]) ''add encryption'' = Inr []\<close>
  by code_simp

section \<open>Properties of the dependency graph\<close>

lemma append_dep_map_of:
  "map_of g f = Some ds \<Longrightarrow> map_of (append_dep f other g) = (map_of g)(f \<mapsto> ds @ [other])"
  by (simp add: append_dep_def update_conv')

lemma fold_append_dep:
  "map_of g f = Some ds \<Longrightarrow>
   map_of (fold (\<lambda>x g'. if P x then append_dep f (t x) g' else g') xs g)
     = (map_of g)(f \<mapsto> ds @ map t (filter P xs))"
proof (induction xs arbitrary: g ds)
  case Nil
  then show ?case by (simp add: map_upd_triv)
next
  case (Cons x xs)
  show ?case
  proof (cases "P x")
    case True
    have a: "map_of (append_dep f (t x) g) = (map_of g)(f \<mapsto> ds @ [t x])"
      by (rule append_dep_map_of[OF Cons.prems])
    then have m: "map_of (append_dep f (t x) g) f = Some (ds @ [t x])" by simp
    have c: "ds @ map t (filter P (x # xs)) = (ds @ [t x]) @ map t (filter P xs)"
      using True by simp
    have "map_of (fold (\<lambda>x g'. if P x then append_dep f (t x) g' else g') (x # xs) g)
        = map_of (fold (\<lambda>x g'. if P x then append_dep f (t x) g' else g') xs (append_dep f (t x) g))"
      using True by simp
    also have "\<dots> = (map_of (append_dep f (t x) g))(f \<mapsto> (ds @ [t x]) @ map t (filter P xs))"
      by (rule Cons.IH[OF m])
    also have "\<dots> = (map_of g)(f \<mapsto> ds @ map t (filter P (x # xs)))"
      unfolding a c by (rule fun_upd_upd)
    finally show ?thesis .
  next
    case False
    from Cons.IH[OF Cons.prems] False show ?thesis by simp
  qed
qed

lemma add_module_deps_map_of:
  assumes "map_of g f = Some ds"
  shows "map_of (add_module_deps files f source g) = (map_of g)(f \<mapsto> ds @ module_targets files f source)"
proof (cases "is_relative source")
  case True
  from fold_append_dep[OF assms, of "prefix (source_dir f source)" "\<lambda>x. x" "map fst files"] True
  show ?thesis by (simp add: add_module_deps_def module_targets_def)
next
  case False
  with assms show ?thesis by (simp add: add_module_deps_def module_targets_def map_upd_triv)
qed

lemma add_var_deps_map_of:
  assumes "map_of g f = Some ds"
  shows "map_of (add_var_deps files f var_name g) = (map_of g)(f \<mapsto> ds @ var_targets files var_name)"
proof -
  have "(\<lambda>(other_file, other_content) g'.
            if declares var_name other_content then append_dep f other_file g' else g')
        = (\<lambda>x g'. if declares var_name (snd x) then append_dep f (fst x) g' else g')"
    by (simp add: case_prod_unfold)
  with fold_append_dep[OF assms, of "\<lambda>x. declares var_name (snd x)" fst files]
  show ?thesis by (simp add: add_var_deps_def var_targets_def)
qed

lemma fold_module_deps:
  "map_of g f = Some ds \<Longrightarrow>
   map_of (fold (add_module_deps files f) srcs g)
     = (map_of g)(f \<mapsto> ds @ concat (map (module_targets files f) srcs))"
proof (induction srcs arbitrary: g ds)
  case Nil
  then show ?case by (simp add: map_upd_triv)
next
  case (Cons s srcs)
  have m1: "map_of (add_module_deps files f s g) = (map_of g)(f \<mapsto> ds @ module_targets files f s)"
    using Cons.prems by (rule add_module_deps_map_of)
  then have m2: "map_of (add_module_deps files f s g) f = Some (ds @ module_targets files f s)" by simp
  have c: "ds @ concat (map (module_targets files f) (s # srcs))
      = (ds @ module_targets files f s) @ concat (map (module_targets files f) srcs)" by simp
  have "map_of (fold (add_module_deps files f) (s # srcs) g)
      = map_of (fold (add_module_deps files f) srcs (add_module_deps files f s g))" by simp
  also have "\<dots> = (map_of (add_module_deps files f s g))
      (f \<mapsto> (ds @ module_targets files f s) @ concat (map (module_targets files f) srcs))"
    by (rule Cons.IH[OF m2])
  also have "\<dots> = (map_of g)(f \<mapsto> ds @ concat (map (module_targets files f) (s # srcs)))"
    unfolding m1 c by (rule fun_upd_upd)
  finally show ?case .
qed

lemma fold_var_deps:
  "map_of g f = Some ds \<Longrightarrow>
   map_of (fold (add_var_deps files f) vars g)
     = (map_of g)(f \<mapsto> ds @ concat (map (var_targets files) vars))"
proof (induction vars arbitrary: g ds)
  case Nil
  then show ?case by (simp add: map_upd_triv)
next
  case (Cons v vars)
  have m1: "map_of (add_var_deps files f v g) = (map_of g)(f \<mapsto> ds @ var_targets files v)"
    using Cons.prems by (rule add_var_deps_map_of)
  then have m2: "map_of (add_var_deps files f v g) f = Some (ds @ var_targets files v)" by simp
  have c: "ds @ concat (map (var_targets files) (v # vars))
      = (ds @ var_targets files v) @ concat (map (var_targets files) vars)" by simp
  have "map_of (fold (add_var_deps files f) (v # vars) g)
      = map_of (fold (add_var_deps files f) vars (add_var_deps files f v g))" by simp
  also have "\<dots> = (map_of (add_var_deps files f v g))
      (f \<mapsto> (ds @ var_targets files v) @ concat (map (var_targets files) vars))"
    by (rule Cons.IH[OF m2])
  also have "\<dots> = (map_of g)(f \<mapsto> ds @ concat (map (var_targets files) (v # vars)))"
    unfolding m1 c by (rule fun_upd_upd)
  finally show ?case .
qed

lemma add_file_deps_map_of:
  assumes "map_of g f = Some ds"
  shows "map_of (add_file_deps files (f, content) g) = (map_of g)(f \<mapsto> ds @ edge_targets files f content)"
proof -
  let ?g1 = "fold (add_module_deps files f) (extract_module_sources content) g"
  have m1: "map_of ?g1 = (map_of g)(f \<mapsto> ds @ concat (map (module_targets files f) (extract_module_sources content)))"
    by (rule fold_module_deps[OF assms])
  then have "map_of ?g1 f = Some (ds @ concat (map (module_targets files f) (extract_module_sources content)))"
    by simp
  from fold_var_deps[OF this, of files "extract_variable_references content"] m1
  show ?thesis by (simp add: add_file_deps_def edge_targets_def Let_def)
qed

lemma build_fold:
  "distinct (map fst xs) \<Longrightarrow> (\<forall>k\<in>set (map fst xs). map_of g k = Some []) \<Longrightarrow>
   map_of (fold (add_file_deps files) xs g) k
     = (case map_of xs k of Some content \<Rightarrow> Some (edge_targets files k content) | None \<Rightarrow> map_of g k)"
proof (induction xs arbitrary: g)
  case Nil
  show ?case by simp
next
  case (Cons x xs)
  obtain f content where x: "x = (f, content)" by (cases x)
  let ?g1 = "add_file_deps files (f, content) g"
  have gf: "map_of g f = Some []" using Cons.prems(2) x by simp
  have m1: "map_of ?g1 = (map_of g)(f \<mapsto> edge_targets files f content)"
    using add_file_deps_map_of[OF gf] by simp
  have fx: "f \<notin> set (map fst xs)" and dx: "distinct (map fst xs)"
    using Cons.prems(1) x by simp_all
  have blank: "\<forall>k\<in>set (map fst xs). map_of ?g1 k = Some []"
  proof
    fix k assume k: "k \<in> set (map fst xs)"
    with fx have "k \<noteq> f" by auto
    moreover from k Cons.prems(2) have "map_of g k = Some []" by auto
    ultimately show "map_of ?g1 k = Some []" by (simp add: m1)
  qed
  have ih: "map_of (fold (add_file_deps files) xs ?g1) k
      = (case map_of xs k of Some content \<Rightarrow> Some (edge_targets files k content) | None \<Rightarrow> map_of ?g1 k)"
    by (rule Cons.IH[OF dx blank])
  have none: "map_of xs f = None" using fx by (simp add: map_of_eq_None_iff)
  show ?case
  proof (cases "k = f")
    case True
    with ih none m1 x show ?thesis by simp
  next
    case False
    with ih m1 x show ?thesis by (simp split: option.splits)
  qed
qed

lemma map_update_blank:
  "map (\<lambda>(p, c). (p, [])) (AList.update k c al) = AList.update k [] (map (\<lambda>(p, c). (p, [])) al)"
  by (induction al) auto

lemma load_files_graph:
  "dependency_graph a = map (\<lambda>(p, c). (p, [])) (file_contents a) \<Longrightarrow>
   dependency_graph (load_files fs a) = map (\<lambda>(p, c). (p, [])) (file_contents (load_files fs a))"
  by (induction fs a rule: load_files.induct) (simp_all add: map_update_blank)

lemma blank_lookup:
  "k \<in> set (map fst xs) \<Longrightarrow> map_of (map (\<lambda>(p, c). (p, [])) xs) k = Some []"
  by (induction xs) auto

lemma analyzer_graph:
  assumes "(f, content) \<in> set (file_contents (TerraformAnalyzer fs))"
  shows "map_of (dependency_graph (TerraformAnalyzer fs)) f
     = Some (edge_targets (file_contents (TerraformAnalyzer fs)) f content)"
proof -
  define a0 where "a0 = load_files fs \<lparr>file_contents = [], dependency_graph = []\<rparr>"
  have fc: "file_contents (TerraformAnalyzer fs) = file_contents a0"
    by (simp add: TerraformAnalyzer_def load_terraform_files_def build_dependency_graph_def a0_def)
  have dg: "dependency_graph (TerraformAnalyzer fs)
      = fold (add_file_deps (file_contents a0)) (file_contents a0) (dependency_graph a0)"
    by (simp add: TerraformAnalyzer_def load_terraform_files_def build_dependency_graph_def a0_def)
  have d: "distinct (map fst (file_contents a0))"
    unfolding a0_def by (rule load_files_distinct) simp
  have g0: "dependency_graph a0 = map (\<lambda>(p, c). (p, [])) (file_contents a0)"
    unfolding a0_def by (rule load_files_graph) simp
  have blank: "\<forall>k\<in>set (map fst (file_contents a0)). map_of (dependency_graph a0) k = Some []"
  proof
    fix k assume "k \<in> set (map fst (file_contents a0))"
    then show "map_of (dependency_graph a0) k = Some []" unfolding g0 by (rule blank_lookup)
  qed
  have mo: "map_of (file_contents a0) f = Some content"
    using assms d fc by simp
  from build_fold[OF d blank, of "file_contents a0" f] mo show ?thesis by (simp add: fc dg)
qed

lemma in_module_targets:
  "other \<in> set (module_targets files file_path source) \<longleftrightarrow>
     is_relative source \<and> prefix (source_dir file_path source) other \<and> has_key other files"
  by (auto simp: module_targets_def has_key_def)

lemma in_var_targets:
  "other \<in> set (var_targets files var_name) \<longleftrightarrow>
     (\<exists>other_content. (other, other_content) \<in> set files \<and> declares var_name other_content)"
  by (force simp: var_targets_def)

text \<open>
  C8, as the code has it. For every corpus and every file of it, the graph has an entry
  for the file, and its edges go to files of the corpus, the file itself not excluded:
  there is an edge to a file exactly when a relative module source found in the
  declaring file resolves to a path that is a prefix of that file's path, or the file's
  content has the text \<open>variable "X"\<close> for a variable \<open>var.X\<close> the referencing file refers
  to.
\<close>

theorem graph_edges:
  fixes fs :: "(string \<times> string option) list"
  defines "a \<equiv> TerraformAnalyzer fs"
  assumes "(file_path, content) \<in> set (file_contents a)"
  shows "case map_of (dependency_graph a) file_path of
           None \<Rightarrow> False
         | Some deps \<Rightarrow>
             (\<forall>other. other \<in> set deps \<longleftrightarrow>
                (\<exists>source\<in>set (extract_module_sources content).
                    is_relative source \<and> prefix (source_dir file_path source) other
                    \<and> has_key other (file_contents a))
                \<or> (\<exists>var_name\<in>set (extract_variable_references content).
                    \<exists>other_content. (other, other_content) \<in> set (file_contents a)
                       \<and> declares var_name other_content))"
proof -
  have "map_of (dependency_graph a) file_path = Some (edge_targets (file_contents a) file_path content)"
    using assms(2) unfolding a_def by (rule analyzer_graph)
  moreover have "\<forall>other. other \<in> set (edge_targets (file_contents a) file_path content) \<longleftrightarrow>
          (\<exists>source\<in>set (extract_module_sources content).
              is_relative source \<and> prefix (source_dir file_path source) other \<and> has_key other (file_contents a))
          \<or> (\<exists>var_name\<in>set (extract_variable_references content).
              \<exists>other_content. (other, other_content) \<in> set (file_contents a)
                 \<and> declares var_name other_content)"
    by (auto simp: edge_targets_def in_module_targets in_var_targets)
  ultimately show ?thesis by simp
qed

text \<open>
  C8 as stated fails on a corpus of the one file \<open>main.tf\<close> that declares the variable
  \<open>region\<close> and refers to it: the scan for the declaration goes over all files, the file
  itself among them, and the graph gets the edge from \<open>main.tf\<close> to \<open>main.tf\<close>.
\<close>

theorem self_edge_counterexample:
  \<open>dependency_graph (TerraformAnalyzer [(''main.tf'', Some ''variable "region" {} x = var.region'')])
     = [(''main.tf'', [''main.tf''])]\<close>
  by code_simp

theorem graph_edges_witness:
  \<open>(''main.tf'', ''variable "region" {} x = var.region'')
      \<in> set (file_contents (TerraformAnalyzer [(''main.tf'', Some ''variable "region" {} x = var.region'')]))
   \<and> map_of (dependency_graph (TerraformAnalyzer [(''main.tf'', Some ''variable "region" {} x = var.region'')])) ''main.tf''
     = Some [''main.tf'']
   \<and> extract_variable_references ''variable "region" {} x = var.region'' = [''region'']
   \<and> declares ''region'' ''variable "region" {} x = var.region''\<close>
proof -
  have fc: \<open>file_contents (TerraformAnalyzer [(''main.tf'', Some ''variable "region" {} x = var.region'')])
      = [(''main.tf'', ''variable "region" {} x = var.region'')]\<close>
    by code_simp
  have h: \<open>(''main.tf'', ''variable "region" {} x = var.region'')
      \<in> set (file_contents (TerraformAnalyzer [(''main.tf'', Some ''variable "region" {} x = var.region'')]))\<close>
    by (simp add: fc)
  have g: \<open>map_of (dependency_graph (TerraformAnalyzer [(''main.tf'', Some ''variable "region" {} x = var.region'')])) ''main.tf''
     = Some [''main.tf'']\<close>
    by code_simp
  have v: \<open>extract_variable_references ''variable "region" {} x = var.region'' = [''region'']\<close>
    by code_simp
  have d: \<open>declares ''region'' ''variable "region" {} x = var.region''\<close>
    by code_simp
  from graph_edges[OF h] h g v d show ?thesis by (intro conjI)
qed



text \<open>
  The module pattern finds the source only when no closing brace stands between the
  opening brace of the block and the attribute: a nested block before \<open>source\<close> hides it.
\<close>

lemma nested_block_hides_source:
  \<open>extract_module_sources ''module "net" { providers = { aws = aws } source = "../network" }'' = []\<close>
  by code_simp




end
